theory Spec2Isabelle
  imports Complex_Main
begin

section \<open>Python values used by the scraper\<close>

text \<open>
  The development embeds \<^verbatim>\<open>parse_veri_bet.py\<close>. Texts are \<^typ>\<open>string\<close>s of ASCII
  characters: Python's Unicode-aware notions (\<^verbatim>\<open>\d\<close>, \<^verbatim>\<open>str.strip\<close>, \<^verbatim>\<open>str.upper\<close>) are
  modelled on the ASCII range only. A Python \<^verbatim>\<open>float\<close> is modelled by the exact rational
  value of the decimal numeral it is parsed from; rounding to binary64 is not modelled.
  Exceptions are values: a fallible operation returns \<open>exn + 'a\<close>, \<open>Inl\<close> being the raise.
\<close>

datatype exn = IndexError | ValueError | AttributeError | TimeoutException

definition is_digit :: "char \<Rightarrow> bool" where
  "is_digit c \<longleftrightarrow> c \<in> set ''0123456789''"

definition is_sign :: "char \<Rightarrow> bool" where
  "is_sign c \<longleftrightarrow> c = CHR ''-'' \<or> c = CHR ''+''"

text \<open>
  \<^verbatim>\<open>str.isspace\<close> on the ASCII range: tab, line feed, vertical tab, form feed, carriage
  return, the four separators \<^verbatim>\<open>\x1c\<close> to \<^verbatim>\<open>\x1f\<close>, and the blank.
\<close>

definition is_space :: "char \<Rightarrow> bool" where
  "is_space c \<longleftrightarrow> (of_char c :: nat) \<in> {9, 10, 11, 12, 13, 28, 29, 30, 31, 32}"

text \<open>\<^verbatim>\<open>str.strip()\<close>: whitespace removed at both ends.\<close>

definition py_strip :: "string \<Rightarrow> string" where
  "py_strip s = rev (dropWhile is_space (rev (dropWhile is_space s)))"

text \<open>\<^verbatim>\<open>str.upper()\<close> on ASCII: the letters a to z move to A to Z, all else stays.\<close>

definition upper_char :: "char \<Rightarrow> char" where
  "upper_char c =
     (if 97 \<le> (of_char c :: nat) \<and> (of_char c :: nat) \<le> 122
      then char_of ((of_char c :: nat) - 32) else c)"

definition py_upper :: "string \<Rightarrow> string" where
  "py_upper s = map upper_char s"

text \<open>
  \<^verbatim>\<open>s.startswith(p)\<close>, and \<^verbatim>\<open>p in s\<close> for strings: \<open>p\<close> starts at some position of \<open>s\<close>.
\<close>

fun startswith :: "string \<Rightarrow> string \<Rightarrow> bool" where
  "startswith s [] = True"
| "startswith [] (p # ps) = False"
| "startswith (c # cs) (p # ps) = (c = p \<and> startswith cs ps)"

fun py_in :: "string \<Rightarrow> string \<Rightarrow> bool" where
  "py_in p [] = (p = [])"
| "py_in p (c # cs) = (startswith (c # cs) p \<or> py_in p cs)"

text \<open>
  \<^verbatim>\<open>s.split(sep)\<close> for a non-empty separator: the text is scanned from the left, \<open>cur\<close>
  collects the piece being read, and every occurrence of \<open>sep\<close> closes a piece and is
  skipped (its first character is \<open>c\<close>, the others are dropped from \<open>cs\<close>). The result is never
  empty. \<^verbatim>\<open>s.replace(old, new)\<close> scans in the same way, for a non-empty \<open>old\<close>. The source
  calls them with the literals \<^verbatim>\<open>"f="\<close> and \<^verbatim>\<open>"DRAW\n"\<close> only.
\<close>

fun split_from :: "string \<Rightarrow> string \<Rightarrow> string \<Rightarrow> string list" where
  "split_from sep cur [] = [cur]"
| "split_from sep cur (c # cs) =
     (if startswith (c # cs) sep
      then cur # split_from sep [] (drop (length sep - 1) cs)
      else split_from sep (cur @ [c]) cs)"

definition py_split :: "string \<Rightarrow> string \<Rightarrow> string list" where
  "py_split s sep = split_from sep [] s"

fun py_replace :: "string \<Rightarrow> string \<Rightarrow> string \<Rightarrow> string" where
  "py_replace [] old new = []"
| "py_replace (c # cs) old new =
     (if startswith (c # cs) old
      then new @ py_replace (drop (length old - 1) cs) old new
      else c # py_replace cs old new)"

section \<open>Text normalizer\<close>

subsection \<open>\<^verbatim>\<open>extract_spread\<close>\<close>

text \<open>
  The pattern \<^verbatim>\<open>([-+]?\d+(\.\d+)?)\<close> tried at the head of a text. Every quantifier is
  greedy and nothing after the optional fraction can fail, so the match takes an optional
  sign, all digits that follow, and a dot with all its digits when at least one digit
  follows the dot. A sign that no digit follows cannot start a match.
\<close>

definition match_spread_here :: "string \<Rightarrow> string option" where
  "match_spread_here s =
     (let sgn = (case s of [] \<Rightarrow> [] | c # r \<Rightarrow> if is_sign c then [c] else []);
          r = drop (length sgn) s;
          ds = takeWhile is_digit r;
          r' = dropWhile is_digit r;
          frac = (case r' of [] \<Rightarrow> []
                  | c # r'' \<Rightarrow>
                      if c = CHR ''.'' \<and> takeWhile is_digit r'' \<noteq> []
                      then c # takeWhile is_digit r'' else [])
      in if ds = [] then None else Some (sgn @ ds @ frac))"

text \<open>\<^verbatim>\<open>re.search\<close>: the match at the leftmost position that has one; group 1 is the whole match.\<close>

fun re_search_spread :: "string \<Rightarrow> string option" where
  "re_search_spread [] = None"
| "re_search_spread (c # cs) =
     (case match_spread_here (c # cs) of
        Some m \<Rightarrow> Some m
      | None \<Rightarrow> re_search_spread cs)"

definition nat_of_digits :: "string \<Rightarrow> nat" where
  "nat_of_digits ds = foldl (\<lambda>n c. 10 * n + ((of_char c :: nat) - 48)) 0 ds"

text \<open>
  \<^verbatim>\<open>float(text)\<close> on plain decimal numerals: an optional sign, digits, and optionally a dot
  and digits. These are the only texts the pattern above hands to \<^verbatim>\<open>float\<close>; the other
  spellings Python accepts (exponents, \<^verbatim>\<open>inf\<close>, padding) never reach it and are not
  modelled, so \<open>ValueError\<close> here stands for a text outside this grammar.
\<close>

definition py_float :: "string \<Rightarrow> exn + rat" where
  "py_float s =
     (let sgn = (case s of [] \<Rightarrow> [] | c # r \<Rightarrow> if is_sign c then [c] else []);
          r = drop (length sgn) s;
          ds = takeWhile is_digit r;
          r' = dropWhile is_digit r;
          mag = (case r' of
                   [] \<Rightarrow> Some (of_nat (nat_of_digits ds))
                 | c # fs \<Rightarrow>
                     if c = CHR ''.'' \<and> fs \<noteq> [] \<and> list_all is_digit fs
                     then Some (of_nat (nat_of_digits ds)
                                + of_nat (nat_of_digits fs) / 10 ^ length fs)
                     else None)
      in if ds = [] then Inl ValueError
         else (case mag of
                 None \<Rightarrow> Inl ValueError
               | Some v \<Rightarrow> Inr (if sgn = ''-'' then - v else v)))"

text \<open>
  \<^verbatim>\<open>
  try:
      match = re.search(r"([-+]?\d+(\.\d+)?)", value_str)
      return float(match.group(1)) if match else 0.0
  except (ValueError, AttributeError):
      return 0.0
  \<close>
\<close>

definition extract_spread :: "string \<Rightarrow> exn + rat" where
  "extract_spread value_str =
     (case (case re_search_spread value_str of
              Some m \<Rightarrow> py_float m
            | None \<Rightarrow> Inr 0) of
        Inr v \<Rightarrow> Inr v
      | Inl e \<Rightarrow> if e = ValueError \<or> e = AttributeError then Inr 0 else Inl e)"

subsection \<open>\<^verbatim>\<open>extract_price\<close>\<close>

text \<open>
  The pattern \<^verbatim>\<open>\(([-+]?\d+)\)\<close> tried at the head of a text: an opening parenthesis, an
  optional sign, all digits that follow, and a closing parenthesis right after them. The
  result is group 1, the text between the parentheses.
\<close>

definition match_price_here :: "string \<Rightarrow> string option" where
  "match_price_here s =
     (case s of
        [] \<Rightarrow> None
      | p # t \<Rightarrow>
          if p \<noteq> CHR ''('' then None
          else
            (let sgn = (case t of [] \<Rightarrow> [] | c # r \<Rightarrow> if is_sign c then [c] else []);
                 r = drop (length sgn) t;
                 ds = takeWhile is_digit r;
                 r' = dropWhile is_digit r
             in if ds \<noteq> [] \<and> startswith r' '')'' then Some (sgn @ ds) else None))"

fun re_search_price :: "string \<Rightarrow> string option" where
  "re_search_price [] = None"
| "re_search_price (c # cs) =
     (case match_price_here (c # cs) of
        Some m \<Rightarrow> Some m
      | None \<Rightarrow> re_search_price cs)"

text \<open>
  \<^verbatim>\<open>
  match = re.search(r"\(([-+]?\d+)\)", value_str)
  return match.group(1) if match else value_str.strip()
  \<close>
\<close>

definition extract_price :: "string \<Rightarrow> string" where
  "extract_price value_str =
     (case re_search_price value_str of
        Some m \<Rightarrow> m
      | None \<Rightarrow> py_strip value_str)"

section \<open>Data model\<close>

text \<open>The dataclass \<^verbatim>\<open>Item\<close>; \<open>spread\<close> defaults to \<open>0\<close> and \<open>pitcher\<close> to the empty text.\<close>

record Item =
  sport_league :: string
  event_date_utc :: string
  team1 :: string
  team2 :: string
  period :: string
  line_type :: string
  price :: string
  side :: string
  team :: string
  spread :: rat
  pitcher :: string

text \<open>
  What the browser shows. A row is what the six element queries of the loop body return
  on it: the texts of the elements found by \<^verbatim>\<open>find_elements\<close>, the \<^verbatim>\<open>href\<close> of the league link
  and the text of the row's own badge (\<open>None\<close> where \<^verbatim>\<open>find_element\<close> raises
  \<^verbatim>\<open>NoSuchElementException\<close>). The selector of the league link only finds elements that
  carry an \<^verbatim>\<open>href\<close>, so the attribute is a text.
\<close>

record row =
  team_names :: "string list"
  moneyline_prices :: "string list"
  spread_prices :: "string list"
  total_prices :: "string list"
  sport_elem :: "string option"
  row_badge :: "string option"

record datetime =
  dt_year :: nat
  dt_month :: nat
  dt_day :: nat
  dt_hour :: nat
  dt_minute :: nat
  dt_second :: nat

text \<open>
  A page is one navigation's document together with the clock readings taken while it is
  processed. \<open>datepicker\<close> is \<open>None\<close> when the 20 second wait for the date control times
  out, else the control's \<^verbatim>\<open>value\<close> attribute (itself \<open>None\<close> when absent); \<open>game_rows\<close> is
  \<open>None\<close> when the 10 second wait for the rows times out. \<open>final_badge\<close> is the text of the
  first element of the whole document that the second XPath query of the period step
  finds from \<^verbatim>\<open>self.driver\<close>: a light badge whose text contains \<^verbatim>\<open>FINAL\<close>.
\<close>

record page =
  datepicker :: "string option option"
  game_rows :: "row list option"
  final_badge :: "string option"
  now_local :: datetime
  utcnow :: datetime

datatype log_msg =
    DateFieldEmpty
  | DateRetrievalFailed
  | MissingDataInRow
  | ErrorParsingRow exn
  | TimeoutLoadingPage

text \<open>
  The mutable state: the attribute \<^verbatim>\<open>self.cached_event_date\<close>, the local list \<^verbatim>\<open>items\<close> of
  \<^verbatim>\<open>parse_game_data\<close>, and the warnings passed to \<^verbatim>\<open>logging.warning\<close>, oldest first.
\<close>

record state =
  cached_event_date :: "string option"
  items :: "Item list"
  warnings :: "log_msg list"

definition init_state :: state where
  "init_state = \<lparr>cached_event_date = None, items = [], warnings = []\<rparr>"

definition log_warning :: "log_msg \<Rightarrow> state \<Rightarrow> state" where
  "log_warning m st = st\<lparr>warnings := warnings st @ [m]\<rparr>"

section \<open>Date resolver\<close>

subsection \<open>\<^verbatim>\<open>strftime\<close> and \<^verbatim>\<open>strptime\<close>\<close>

definition digit_char :: "nat \<Rightarrow> char" where
  "digit_char d = char_of (48 + d mod 10)"

definition fmt2 :: "nat \<Rightarrow> string" where
  "fmt2 n = [digit_char (n div 10), digit_char n]"

text \<open>\<^verbatim>\<open>%Y\<close> as documented, four digits (glibc leaves out the padding below 1000).\<close>

definition fmt4 :: "nat \<Rightarrow> string" where
  "fmt4 n = [digit_char (n div 1000), digit_char (n div 100), digit_char (n div 10), digit_char n]"

text \<open>\<^verbatim>\<open>strftime("%H:%M:%S")\<close> and \<^verbatim>\<open>strftime("%Y-%m-%dT%H:%M:%S+00:00")\<close>.\<close>

definition strftime_hms :: "datetime \<Rightarrow> string" where
  "strftime_hms t = fmt2 (dt_hour t) @ '':'' @ fmt2 (dt_minute t) @ '':'' @ fmt2 (dt_second t)"

definition strftime_iso :: "datetime \<Rightarrow> string" where
  "strftime_iso t =
     fmt4 (dt_year t) @ ''-'' @ fmt2 (dt_month t) @ ''-'' @ fmt2 (dt_day t) @ ''T''
       @ strftime_hms t @ ''+00:00''"

text \<open>
  \<^verbatim>\<open>strptime\<close> turns the format \<^verbatim>\<open>%m-%d-%Y %H:%M:%S\<close> into the regular expression
  \<^verbatim>\<open>(1[0-2]|0[1-9]|[1-9])-(3[0-1]|[1-2]\d|0[1-9]|[1-9]| [1-9])-(\d\d\d\d)\s+\<close>
  \<^verbatim>\<open>(2[0-3]|[0-1]\d|\d):([0-5]\d|\d):(6[0-1]|[0-5]\d|\d)\<close>
  and matches it at the head of the text. The expression is a sequence of parts; a part
  is a list of alternatives, an alternative a list of character classes. A matcher
  returns every way to match, in the order in which a backtracking matcher tries them:
  the matched text with the rest of the input.
\<close>

fun cls_seq :: "string list \<Rightarrow> string \<Rightarrow> (string \<times> string) list" where
  "cls_seq [] s = [([], s)]"
| "cls_seq (k # ks) [] = []"
| "cls_seq (k # ks) (c # r) =
     (if c \<in> set k then map (\<lambda>(m, r'). (c # m, r')) (cls_seq ks r) else [])"

definition alts :: "string list list \<Rightarrow> string \<Rightarrow> (string \<times> string) list" where
  "alts ps s = concat (map (\<lambda>p. cls_seq p s) ps)"

text \<open>\<^verbatim>\<open>\s+\<close>, greedy: the whole run of whitespace first, then the shorter ones down to one.\<close>

definition spaces1 :: "string \<Rightarrow> (string \<times> string) list" where
  "spaces1 s =
     map (\<lambda>n. (take n s, drop n s)) (rev [1 ..< Suc (length (takeWhile is_space s))])"

fun seq_all :: "(string \<Rightarrow> (string \<times> string) list) list \<Rightarrow> string \<Rightarrow> (string list \<times> string) list" where
  "seq_all [] s = [([], s)]"
| "seq_all (p # ps) s =
     concat (map (\<lambda>(m, r). map (\<lambda>(ms, r'). (m # ms, r')) (seq_all ps r)) (p s))"

definition digits :: string where
  "digits = ''0123456789''"

definition nonzero :: string where
  "nonzero = ''123456789''"

definition time_re :: "(string \<Rightarrow> (string \<times> string) list) list" where
  "time_re =
     [alts [[''1'', ''012''], [''0'', nonzero], [nonzero]],
      alts [[''-'']],
      alts [[''3'', ''01''], [''12'', digits], [''0'', nonzero], [nonzero], ['' '', nonzero]],
      alts [[''-'']],
      alts [[digits, digits, digits, digits]],
      spaces1,
      alts [[''2'', ''0123''], [''01'', digits], [digits]],
      alts [['':'']],
      alts [[''012345'', digits], [digits]],
      alts [['':'']],
      alts [[''6'', ''01''], [''012345'', digits], [digits]]]"

definition leap_year :: "nat \<Rightarrow> bool" where
  "leap_year y \<longleftrightarrow> y mod 4 = 0 \<and> (y mod 100 \<noteq> 0 \<or> y mod 400 = 0)"

definition days_in_month :: "nat \<Rightarrow> nat \<Rightarrow> nat" where
  "days_in_month y m =
     (if m = 2 then (if leap_year y then 29 else 28)
      else if m \<in> {4, 6, 9, 11} then 30 else 31)"

text \<open>\<^verbatim>\<open>int\<close> of a matched group; the day may carry a leading blank.\<close>

definition group_int :: "string \<Rightarrow> nat" where
  "group_int g = nat_of_digits (filter is_digit g)"

text \<open>
  \<^verbatim>\<open>datetime.strptime(text, "%m-%d-%Y %H:%M:%S")\<close>: \<open>ValueError\<close> when the expression does not
  match, when text is left over after the match, and when the fields are no date-time
  (year 0, a day past the end of the month, a second above 59).
\<close>

definition strptime :: "string \<Rightarrow> exn + datetime" where
  "strptime s =
     (case seq_all time_re s of
        [] \<Rightarrow> Inl ValueError
      | (ms, rest) # _ \<Rightarrow>
          if rest \<noteq> [] then Inl ValueError
          else
            (case ms of
               [mo, _, d, _, y, _, h, _, mi, _, se] \<Rightarrow>
                 if 1 \<le> group_int y \<and> group_int d \<le> days_in_month (group_int y) (group_int mo)
                    \<and> group_int se \<le> 59
                 then Inr \<lparr>dt_year = group_int y, dt_month = group_int mo, dt_day = group_int d,
                           dt_hour = group_int h, dt_minute = group_int mi, dt_second = group_int se\<rparr>
                 else Inl ValueError
             | _ \<Rightarrow> Inl ValueError))"

subsection \<open>\<^verbatim>\<open>get_event_date\<close>\<close>

text \<open>Truth value of \<^verbatim>\<open>str | None\<close>: \<^verbatim>\<open>None\<close> and the empty text are false.\<close>

definition truthy :: "string option \<Rightarrow> bool" where
  "truthy v = (case v of None \<Rightarrow> False | Some s \<Rightarrow> s \<noteq> [])"

text \<open>The two fallback branches: the current UTC date-time is cached and returned.\<close>

definition use_utcnow :: "log_msg \<Rightarrow> page \<Rightarrow> state \<Rightarrow> (exn + string) \<times> state" where
  "use_utcnow m pg st =
     (Inr (strftime_iso (utcnow pg)),
      (log_warning m st)\<lparr>cached_event_date := Some (strftime_iso (utcnow pg))\<rparr>)"

text \<open>
  \<^verbatim>\<open>
  if self.cached_event_date:
      return self.cached_event_date
  try:
      date_input = WebDriverWait(self.driver, 20).until(...)
      raw_date = date_input.get_attribute("value")
      if not raw_date:
          logging.warning(...)
          self.cached_event_date = datetime.datetime.utcnow().strftime("%Y-%m-%dT%H:%M:%S+00:00")
          return self.cached_event_date
      current_time = datetime.datetime.now().strftime("%H:%M:%S")
      raw_datetime = f"{raw_date} {current_time}"
      parsed_date = datetime.datetime.strptime(raw_datetime, "%m-%d-%Y %H:%M:%S")
      self.cached_event_date = parsed_date.strftime("%Y-%m-%dT%H:%M:%S+00:00")
      return self.cached_event_date
  except TimeoutException:
      logging.warning(...)
      self.cached_event_date = datetime.datetime.utcnow().strftime("%Y-%m-%dT%H:%M:%S+00:00")
      return self.cached_event_date
  \<close>
  \<open>event_date_try\<close> is the body of the \<^verbatim>\<open>try\<close>: the wait for the date control raises
  \<^verbatim>\<open>TimeoutException\<close> when the control does not show up, and \<^verbatim>\<open>strptime\<close> may raise.
  \<open>event_date_resolve\<close> adds the handler, which catches \<^verbatim>\<open>TimeoutException\<close> only: any other
  exception of the body leaves the function. \<open>get_event_date\<close> puts the test of the cache in
  front; an empty text in the cache counts as no value.
\<close>

definition event_date_try :: "page \<Rightarrow> state \<Rightarrow> (exn + string) \<times> state" where
  "event_date_try pg st =
     (case datepicker pg of
        None \<Rightarrow> (Inl TimeoutException, st)
      | Some raw_date \<Rightarrow>
          (case raw_date of
             None \<Rightarrow> use_utcnow DateFieldEmpty pg st
           | Some v \<Rightarrow>
               if v = [] then use_utcnow DateFieldEmpty pg st
               else
                 (case strptime (v @ '' '' @ strftime_hms (now_local pg)) of
                    Inl e \<Rightarrow> (Inl e, st)
                  | Inr parsed_date \<Rightarrow>
                      (Inr (strftime_iso parsed_date),
                       st\<lparr>cached_event_date := Some (strftime_iso parsed_date)\<rparr>))))"

definition event_date_resolve :: "page \<Rightarrow> state \<Rightarrow> (exn + string) \<times> state" where
  "event_date_resolve pg st =
     (case event_date_try pg st of
        (Inl e, st') \<Rightarrow>
          if e = TimeoutException then use_utcnow DateRetrievalFailed pg st'
          else (Inl e, st')
      | (Inr d, st') \<Rightarrow> (Inr d, st'))"

definition get_event_date :: "page \<Rightarrow> state \<Rightarrow> (exn + string) \<times> state" where
  "get_event_date pg st =
     (case cached_event_date st of
        None \<Rightarrow> event_date_resolve pg st
      | Some d \<Rightarrow> if d \<noteq> [] then (Inr d, st) else event_date_resolve pg st)"

section \<open>Row extractor\<close>

text \<open>\<^verbatim>\<open>xs[i]\<close> with a literal index \<open>i \<ge> 0\<close>: \<^verbatim>\<open>IndexError\<close> past the end.\<close>

definition subscript :: "'a list \<Rightarrow> nat \<Rightarrow> exn + 'a" where
  "subscript xs i = (if i < length xs then Inr (xs ! i) else Inl IndexError)"

text \<open>Evaluation in sequence: the first raise ends the expression.\<close>

definition and_then :: "exn + 'a \<Rightarrow> ('a \<Rightarrow> exn + 'b) \<Rightarrow> exn + 'b" where
  "and_then x f = (case x of Inl e \<Rightarrow> Inl e | Inr a \<Rightarrow> f a)"

text \<open>
  A statement of the loop body runs on the state and either completes (\<open>None\<close>) or raises
  (\<open>Some e\<close>); the state is returned in both cases, with what was written to it before
  the raise. \<open>items_append\<close> is \<^verbatim>\<open>items.append(...)\<close>: the argument is evaluated first, and nothing
  is appended when it raises. \<open>run_seq\<close> runs two statements in a row.
\<close>

type_synonym stmt = "state \<Rightarrow> state \<times> exn option"

definition pass_stmt :: stmt where
  "pass_stmt st = (st, None)"

definition items_append :: "exn + Item \<Rightarrow> stmt" where
  "items_append x st =
     (case x of
        Inl e \<Rightarrow> (st, Some e)
      | Inr it \<Rightarrow> (st\<lparr>items := items st @ [it]\<rparr>, None))"

definition run_seq :: "stmt \<Rightarrow> stmt \<Rightarrow> stmt" where
  "run_seq f g st = (case f st of (st', Some e) \<Rightarrow> (st', Some e) | (st', None) \<Rightarrow> g st')"

text \<open>
  The league step:
  \<^verbatim>\<open>
  sport_league = "UNKNOWN"
  try:
      sport_elem = row.find_element(By.CSS_SELECTOR, "a[href*='betting-trends?f=']")
      sport_league = sport_elem.get_attribute("href").split("f=")[-1].upper()
  except NoSuchElementException:
      pass
  \<close>
\<close>

definition league_of :: "row \<Rightarrow> string" where
  "league_of r =
     (case sport_elem r of
        None \<Rightarrow> ''UNKNOWN''
      | Some href \<Rightarrow> py_upper (last (py_split href ''f='')))"

text \<open>
  The period step:
  \<^verbatim>\<open>
  period = "FULL GAME"
  try:
      period_elem = row.find_element(By.XPATH, ".//span[contains(@class, 'badge') and ...]")
      period_elem = self.driver.find_element(By.XPATH, ".//span[... and contains(text(), 'FINAL')]")
      print(period_elem.get_attribute("outerHTML"))
      period = period_elem.text.strip()
  except NoSuchElementException:
      pass
  \<close>
  The first query looks in the row and its result is overwritten by the second, which
  looks in the whole document; either may raise. The \<^verbatim>\<open>print\<close> is not modelled.
\<close>

definition period_of :: "page \<Rightarrow> row \<Rightarrow> string" where
  "period_of pg r =
     (case row_badge r of
        None \<Rightarrow> ''FULL GAME''
      | Some _ \<Rightarrow>
          (case final_badge pg of
             None \<Rightarrow> ''FULL GAME''
           | Some t \<Rightarrow> py_strip t))"

text \<open>
  The records of the team markets are built by one expression shape,
  \<^verbatim>\<open>Item(sport_league, event_date_utc, team1, team2, period, line_type,\<close>
  \<^verbatim>\<open>     self.extract_price(prices[i].text), side, team, self.extract_spread(spread_prices[i].text))\<close>,
  whose arguments are evaluated from left to right.
\<close>

definition line_item ::
  "string \<Rightarrow> string \<Rightarrow> string \<Rightarrow> string \<Rightarrow> string \<Rightarrow> string \<Rightarrow> string list \<Rightarrow> nat
     \<Rightarrow> string \<Rightarrow> string \<Rightarrow> string list \<Rightarrow> exn + Item" where
  "line_item league event_date t1 t2 per ltype prices i sd tm spreads =
     and_then (subscript prices i) (\<lambda>p.
     and_then (subscript spreads i) (\<lambda>s.
     and_then (extract_spread s) (\<lambda>v.
       Inr \<lparr>sport_league = league, event_date_utc = event_date, team1 = t1, team2 = t2,
            period = per, line_type = ltype, price = extract_price p, side = sd, team = tm,
            spread = v, pitcher = []\<rparr>)))"

text \<open>\<^verbatim>\<open># Moneyline bets\<close>\<close>

definition moneyline_block :: "string \<Rightarrow> string \<Rightarrow> string \<Rightarrow> string \<Rightarrow> string \<Rightarrow> row \<Rightarrow> stmt" where
  "moneyline_block league event_date t1 t2 per r =
     (if length (moneyline_prices r) \<ge> 2 then
        run_seq (items_append (line_item league event_date t1 t2 per ''moneyline''
                       (moneyline_prices r) 1 t1 t1 (spread_prices r)))
            (items_append (line_item league event_date t1 t2 per ''moneyline''
                       (moneyline_prices r) 2 t2 t2 (spread_prices r)))
      else pass_stmt)"

text \<open>
  \<^verbatim>\<open># Draw bet (only for Soccer)\<close>
  \<^verbatim>\<open>
  if "SOCCER" in sport_league and len(moneyline_prices) >= 4:
      draw_price = moneyline_prices[3].text.replace("DRAW\n", "").strip()
      items.append(Item(sport_league, event_date_utc, team1, team2, period, "moneyline",
                        draw_price, "draw", "draw"))
  \<close>
\<close>

definition draw_marker :: string where
  "draw_marker = ''DRAW'' @ [CHR 0x0A]"

definition draw_item :: "string \<Rightarrow> string \<Rightarrow> string \<Rightarrow> string \<Rightarrow> string \<Rightarrow> row \<Rightarrow> exn + Item" where
  "draw_item league event_date t1 t2 per r =
     and_then (subscript (moneyline_prices r) 3) (\<lambda>p.
       Inr \<lparr>sport_league = league, event_date_utc = event_date, team1 = t1, team2 = t2,
            period = per, line_type = ''moneyline'',
            price = py_strip (py_replace p draw_marker []), side = ''draw'', team = ''draw'',
            spread = 0, pitcher = []\<rparr>)"

definition draw_block :: "string \<Rightarrow> string \<Rightarrow> string \<Rightarrow> string \<Rightarrow> string \<Rightarrow> row \<Rightarrow> stmt" where
  "draw_block league event_date t1 t2 per r =
     (if py_in ''SOCCER'' league \<and> length (moneyline_prices r) \<ge> 4 then
        items_append (draw_item league event_date t1 t2 per r)
      else pass_stmt)"

text \<open>\<^verbatim>\<open># Spread bets\<close>\<close>

definition spread_block :: "string \<Rightarrow> string \<Rightarrow> string \<Rightarrow> string \<Rightarrow> string \<Rightarrow> row \<Rightarrow> stmt" where
  "spread_block league event_date t1 t2 per r =
     (if length (spread_prices r) \<ge> 2 then
        run_seq (items_append (line_item league event_date t1 t2 per ''spread''
                       (spread_prices r) 1 t1 t1 (spread_prices r)))
            (items_append (line_item league event_date t1 t2 per ''spread''
                       (spread_prices r) 2 t2 t2 (spread_prices r)))
      else pass_stmt)"

text \<open>\<^verbatim>\<open># Over/Under bets\<close>\<close>

definition over_under_block :: "string \<Rightarrow> string \<Rightarrow> string \<Rightarrow> string \<Rightarrow> string \<Rightarrow> row \<Rightarrow> stmt" where
  "over_under_block league event_date t1 t2 per r =
     (if length (total_prices r) \<ge> 2 then
        run_seq (items_append (line_item league event_date t1 t2 per ''over/under''
                       (total_prices r) 1 ''over'' ''total'' (spread_prices r)))
            (items_append (line_item league event_date t1 t2 per ''over/under''
                       (total_prices r) 2 ''under'' ''total'' (spread_prices r)))
      else pass_stmt)"

text \<open>
  The body of the \<^verbatim>\<open>try\<close> inside the loop. The precondition check logs and leaves the body
  by \<^verbatim>\<open>continue\<close>; past it the two team names are read and the four blocks run in order.
\<close>

definition precondition :: "row \<Rightarrow> bool" where
  "precondition r \<longleftrightarrow> \<not> (length (team_names r) < 2 \<or> length (moneyline_prices r) < 2)"

definition market_blocks :: "string \<Rightarrow> string \<Rightarrow> string \<Rightarrow> string \<Rightarrow> string \<Rightarrow> row \<Rightarrow> stmt" where
  "market_blocks league event_date t1 t2 per r =
     run_seq (moneyline_block league event_date t1 t2 per r)
    (run_seq (draw_block league event_date t1 t2 per r)
    (run_seq (spread_block league event_date t1 t2 per r)
         (over_under_block league event_date t1 t2 per r)))"

definition row_body :: "page \<Rightarrow> string \<Rightarrow> row \<Rightarrow> stmt" where
  "row_body pg event_date r st =
     (if length (team_names r) < 2 \<or> length (moneyline_prices r) < 2 then
        (log_warning MissingDataInRow st, None)
      else
        (case and_then (subscript (team_names r) 0) (\<lambda>t1.
              and_then (subscript (team_names r) 1) (\<lambda>t2. Inr (t1, t2))) of
           Inl e \<Rightarrow> (st, Some e)
         | Inr (t1, t2) \<Rightarrow> market_blocks (league_of r) event_date t1 t2 (period_of pg r) r st))"

text \<open>
  The \<^verbatim>\<open>try\<close> with its handler \<^verbatim>\<open>except Exception as e: logging.warning(...); continue\<close>, and the
  \<^verbatim>\<open>for\<close> loop over the rows. Every exception of the model is an \<^verbatim>\<open>Exception\<close>.
\<close>

definition parse_row :: "page \<Rightarrow> string \<Rightarrow> row \<Rightarrow> state \<Rightarrow> state" where
  "parse_row pg event_date r st =
     (case row_body pg event_date r st of
        (st', None) \<Rightarrow> st'
      | (st', Some e) \<Rightarrow> log_warning (ErrorParsingRow e) st')"

fun parse_rows :: "page \<Rightarrow> string \<Rightarrow> row list \<Rightarrow> state \<Rightarrow> state" where
  "parse_rows pg event_date [] st = st"
| "parse_rows pg event_date (r # rs) st = parse_rows pg event_date rs (parse_row pg event_date r st)"

section \<open>Batch orchestrator\<close>

text \<open>
  \<^verbatim>\<open>parse_game_data\<close>: the list \<^verbatim>\<open>items\<close> starts empty; the outer handler catches
  \<^verbatim>\<open>TimeoutException\<close> only, so any other exception of \<^verbatim>\<open>get_event_date\<close> leaves the function.
\<close>

definition parse_game_data :: "page \<Rightarrow> state \<Rightarrow> (exn + Item list) \<times> state" where
  "parse_game_data pg st0 =
     (let st = st0\<lparr>items := []\<rparr> in
      case get_event_date pg st of
        (Inl e, st1) \<Rightarrow>
          if e = TimeoutException then (Inr (items st1), log_warning TimeoutLoadingPage st1)
          else (Inl e, st1)
      | (Inr event_date, st1) \<Rightarrow>
          (case game_rows pg of
             None \<Rightarrow> (Inr (items st1), log_warning TimeoutLoadingPage st1)
           | Some rows \<Rightarrow>
               (let st2 = parse_rows pg event_date rows st1 in (Inr (items st2), st2))))"

text \<open>
  The main loop, \<^verbatim>\<open>while True: scraper.driver.get(BASE_URL); items = scraper.parse_game_data(); ...\<close>,
  on a finite run of navigations: each navigation shows a page, and the lists returned by
  the cycles are collected. An exception that leaves \<^verbatim>\<open>parse_game_data\<close> ends the program
  (the loop catches \<^verbatim>\<open>KeyboardInterrupt\<close> only).
\<close>

fun main_loop :: "page list \<Rightarrow> state \<Rightarrow> (exn + Item list list) \<times> state" where
  "main_loop [] st = (Inr [], st)"
| "main_loop (pg # pgs) st =
     (case parse_game_data pg st of
        (Inl e, st') \<Rightarrow> (Inl e, st')
      | (Inr its, st') \<Rightarrow>
          (case main_loop pgs st' of
             (Inl e, st'') \<Rightarrow> (Inl e, st'')
           | (Inr rest, st'') \<Rightarrow> (Inr (its # rest), st'')))"
section \<open>Notions used to state the properties\<close>

text \<open>
  A signed decimal numeral, in the words of the specification: an optional sign, one or
  more digits, and optionally a dot followed by one or more digits.
\<close>

definition signed_decimal :: "string \<Rightarrow> bool" where
  "signed_decimal m \<longleftrightarrow>
     (\<exists>sg ds fr. m = sg @ ds @ fr \<and> (sg = [] \<or> sg = ''-'' \<or> sg = ''+'')
        \<and> ds \<noteq> [] \<and> list_all is_digit ds
        \<and> (fr = [] \<or> (\<exists>fs. fr = CHR ''.'' # fs \<and> fs \<noteq> [] \<and> list_all is_digit fs)))"

text \<open>
  \<open>first_numeral s m\<close>: \<open>m\<close> is a signed decimal numeral inside \<open>s\<close>, no numeral starts
  further left, and no numeral starting at the same place is longer.
\<close>

definition first_numeral :: "string \<Rightarrow> string \<Rightarrow> bool" where
  "first_numeral s m \<longleftrightarrow>
     (\<exists>pre post. s = pre @ m @ post \<and> signed_decimal m \<and>
        (\<forall>pre' m' post'. s = pre' @ m' @ post' \<and> signed_decimal m' \<longrightarrow>
           length pre \<le> length pre' \<and> (length pre' = length pre \<longrightarrow> length m' \<le> length m)))"

definition has_numeral :: "string \<Rightarrow> bool" where
  "has_numeral s \<longleftrightarrow> (\<exists>pre m post. s = pre @ m @ post \<and> signed_decimal m)"

text \<open>
  A signed integer: an optional sign and one or more digits. \<open>first_price s m\<close>: the
  text \<open>(m)\<close> with \<open>m\<close> a signed integer occurs in \<open>s\<close>, and no such text starts further left.
\<close>

definition signed_int :: "string \<Rightarrow> bool" where
  "signed_int m \<longleftrightarrow>
     (\<exists>sg ds. m = sg @ ds \<and> (sg = [] \<or> sg = ''-'' \<or> sg = ''+'')
        \<and> ds \<noteq> [] \<and> list_all is_digit ds)"

definition in_parens :: "string \<Rightarrow> string" where
  "in_parens m = ''('' @ m @ '')''"

definition first_price :: "string \<Rightarrow> string \<Rightarrow> bool" where
  "first_price s m \<longleftrightarrow>
     (\<exists>pre post. s = pre @ in_parens m @ post \<and> signed_int m \<and>
        (\<forall>pre' m' post'. s = pre' @ in_parens m' @ post' \<and> signed_int m' \<longrightarrow>
           length pre \<le> length pre'))"

definition has_price :: "string \<Rightarrow> bool" where
  "has_price s \<longleftrightarrow> (\<exists>pre m post. s = pre @ in_parens m @ post \<and> signed_int m)"

text \<open>
  \<open>trimmed s t\<close>: \<open>t\<close> is \<open>s\<close> without the whitespace at its two ends.
\<close>

definition trimmed :: "string \<Rightarrow> string \<Rightarrow> bool" where
  "trimmed s t \<longleftrightarrow>
     (\<exists>a b. s = a @ t @ b \<and> list_all is_space a \<and> list_all is_space b
        \<and> (t = [] \<or> (\<not> is_space (hd t) \<and> \<not> is_space (last t))))"

text \<open>
  What a statement does when it runs on the initial state: the records it appends and
  the exception it ends with, if any. A statement \<open>appends\<close> when on every state it does
  just that: the same records are added at the end of \<open>items\<close>, nothing else changes, and
  the outcome is the same.
\<close>

definition block_out :: "stmt \<Rightarrow> Item list \<times> exn option" where
  "block_out b = (items (fst (b init_state)), snd (b init_state))"

definition appends :: "stmt \<Rightarrow> bool" where
  "appends b \<longleftrightarrow> (\<forall>st. b st = (st\<lparr>items := items st @ fst (block_out b)\<rparr>, snd (block_out b)))"

text \<open>
  The records one row adds to the cycle's list, and the exception its processing ends
  with. \<open>spread_value\<close> names the number \<^verbatim>\<open>extract_spread\<close> returns.
\<close>

definition emitted :: "page \<Rightarrow> string \<Rightarrow> row \<Rightarrow> Item list" where
  "emitted pg event_date r = fst (block_out (row_body pg event_date r))"

definition raised :: "page \<Rightarrow> string \<Rightarrow> row \<Rightarrow> exn option" where
  "raised pg event_date r = snd (block_out (row_body pg event_date r))"

definition spread_value :: "string \<Rightarrow> rat" where
  "spread_value s = (case extract_spread s of Inr v \<Rightarrow> v | Inl e \<Rightarrow> 0)"

text \<open>The records each of the four market steps appends for a row, taken on its own.\<close>

definition moneyline_records :: "page \<Rightarrow> string \<Rightarrow> row \<Rightarrow> Item list" where
  "moneyline_records pg event_date r =
     fst (block_out (moneyline_block (league_of r) event_date (team_names r ! 0) (team_names r ! 1)
                       (period_of pg r) r))"

definition draw_records :: "page \<Rightarrow> string \<Rightarrow> row \<Rightarrow> Item list" where
  "draw_records pg event_date r =
     fst (block_out (draw_block (league_of r) event_date (team_names r ! 0) (team_names r ! 1)
                       (period_of pg r) r))"

definition spread_records :: "page \<Rightarrow> string \<Rightarrow> row \<Rightarrow> Item list" where
  "spread_records pg event_date r =
     fst (block_out (spread_block (league_of r) event_date (team_names r ! 0) (team_names r ! 1)
                       (period_of pg r) r))"

definition over_under_records :: "page \<Rightarrow> string \<Rightarrow> row \<Rightarrow> Item list" where
  "over_under_records pg event_date r =
     fst (block_out (over_under_block (league_of r) event_date (team_names r ! 0) (team_names r ! 1)
                       (period_of pg r) r))"

text \<open>Every record a statement appends carries the event date \<open>d\<close>.\<close>

definition all_dated :: "string \<Rightarrow> stmt \<Rightarrow> bool" where
  "all_dated d b \<longleftrightarrow> (\<forall>it \<in> set (fst (block_out b)). event_date_utc it = d)"

section \<open>Sample rows and pages\<close>

text \<open>Concrete inputs on which the definitions are evaluated further down.\<close>

definition sample_clock :: datetime where
  "sample_clock = \<lparr>dt_year = 2024, dt_month = 3, dt_day = 9, dt_hour = 7, dt_minute = 5, dt_second = 59\<rparr>"

definition sample_date :: string where
  "sample_date = ''2024-01-05T07:05:59+00:00''"

definition row_short_moneyline :: row where
  "row_short_moneyline =
     \<lparr>team_names = [''Lions'', ''Bears''],
      moneyline_prices = [''H'', ''(-150)''],
      spread_prices = [''H'', ''-3.5 (-110)'', ''+3.5 (-110)''],
      total_prices = [],
      sport_elem = Some ''https://veri.bet/betting-trends?f=nfl'',
      row_badge = None\<rparr>"

definition page_short_moneyline :: page where
  "page_short_moneyline =
     \<lparr>datepicker = Some (Some ''01-05-2024''), game_rows = Some [row_short_moneyline],
      final_badge = None, now_local = sample_clock, utcnow = sample_clock\<rparr>"

definition row_one_team_soccer :: row where
  "row_one_team_soccer =
     \<lparr>team_names = [''Arsenal''],
      moneyline_prices = [''H'', ''(+120)'', ''(+210)'', ''DRAW'' @ [CHR 0x0A] @ ''(+250)''],
      spread_prices = [''H'', ''-0.5 (-110)'', ''+0.5 (-110)''],
      total_prices = [],
      sport_elem = Some ''https://veri.bet/betting-trends?f=soccer'',
      row_badge = None\<rparr>"

definition row_short_totals :: row where
  "row_short_totals =
     \<lparr>team_names = [''Lions'', ''Bears''],
      moneyline_prices = [''H'', ''(-150)'', ''(+130)''],
      spread_prices = [''H'', ''-3.5 (-110)'', ''+3.5 (-110)''],
      total_prices = [''H'', ''o 47.5 (-110)''],
      sport_elem = Some ''https://veri.bet/betting-trends?f=nfl'',
      row_badge = None\<rparr>"

definition row_no_spread :: row where
  "row_no_spread =
     \<lparr>team_names = [''Lions'', ''Bears''],
      moneyline_prices = [''H'', ''(-150)'', ''(+130)''],
      spread_prices = [],
      total_prices = [],
      sport_elem = Some ''https://veri.bet/betting-trends?f=nfl'',
      row_badge = None\<rparr>"

definition page_one_team_soccer :: page where
  "page_one_team_soccer =
     \<lparr>datepicker = Some (Some ''01-05-2024''), game_rows = Some [row_one_team_soccer],
      final_badge = None, now_local = sample_clock, utcnow = sample_clock\<rparr>"

definition row_soccer :: row where
  "row_soccer =
     \<lparr>team_names = [''Arsenal'', ''Chelsea''],
      moneyline_prices = [''H'', ''(+120)'', ''(+210)'', ''DRAW'' @ [CHR 0x0A] @ ''(+250)''],
      spread_prices = [''H'', ''-0.5 (-110)'', ''+0.5 (-110)''],
      total_prices = [],
      sport_elem = Some ''https://veri.bet/betting-trends?f=soccer'',
      row_badge = None\<rparr>"

definition row_first_half :: row where
  "row_first_half =
     \<lparr>team_names = [''Lions'', ''Bears''],
      moneyline_prices = [''H'', ''(-150)'', ''(+130)''],
      spread_prices = [''H'', ''-3.5 (-110)'', ''+3.5 (-110)''],
      total_prices = [],
      sport_elem = Some ''https://veri.bet/betting-trends?f=nfl'',
      row_badge = Some ''1ST HALF''\<rparr>"

definition row_final :: row where
  "row_final =
     \<lparr>team_names = [''Jets'', ''Bills''],
      moneyline_prices = [''H'', ''(+200)'', ''(-240)''],
      spread_prices = [''H'', ''+6.5 (-110)'', ''-6.5 (-110)''],
      total_prices = [],
      sport_elem = Some ''https://veri.bet/betting-trends?f=nfl'',
      row_badge = Some ''FINAL''\<rparr>"

definition page_two_badges :: page where
  "page_two_badges =
     \<lparr>datepicker = Some (Some ''01-05-2024''), game_rows = Some [row_first_half, row_final],
      final_badge = Some ''FINAL'', now_local = sample_clock, utcnow = sample_clock\<rparr>"

definition page_first_half_only :: page where
  "page_first_half_only =
     \<lparr>datepicker = Some (Some ''01-05-2024''), game_rows = Some [row_first_half],
      final_badge = None, now_local = sample_clock, utcnow = sample_clock\<rparr>"

definition page_iso_date :: page where
  "page_iso_date =
     \<lparr>datepicker = Some (Some ''2024-01-05''), game_rows = Some [row_first_half],
      final_badge = None, now_local = sample_clock, utcnow = sample_clock\<rparr>"

definition row_unknown_league :: row where
  "row_unknown_league =
     \<lparr>team_names = [''Lions'', ''Bears''],
      moneyline_prices = [''H'', ''(-150)'', ''(+130)''],
      spread_prices = [''H'', ''-3.5 (-110)'', ''+3.5 (-110)''],
      total_prices = [],
      sport_elem = Some ''https://veri.bet/betting-trends?f=unknown'',
      row_badge = None\<rparr>"

definition row_no_separator :: row where
  "row_no_separator =
     \<lparr>team_names = [''Lions'', ''Bears''],
      moneyline_prices = [''H'', ''(-150)'', ''(+130)''],
      spread_prices = [''H'', ''-3.5 (-110)'', ''+3.5 (-110)''],
      total_prices = [],
      sport_elem = Some ''https://veri.bet/nba'',
      row_badge = None\<rparr>"

definition page_next_day :: page where
  "page_next_day =
     \<lparr>datepicker = Some (Some ''01-06-2024''), game_rows = Some [row_first_half],
      final_badge = None, now_local = sample_clock, utcnow = sample_clock\<rparr>"

section \<open>Properties of the text normalizer\<close>

subsection \<open>The spread pattern finds the first, longest numeral\<close>

lemma digit_not_sign: "is_digit c \<Longrightarrow> \<not> is_sign c"
  by (auto simp: is_digit_def is_sign_def)

lemma dot_not_digit: "\<not> is_digit CHR ''.''"
  by (simp add: is_digit_def)

lemma takeWhile_all: "list_all P ds \<Longrightarrow> takeWhile P (ds @ r) = ds @ takeWhile P r"
  by (simp add: list_all_iff)

lemma dropWhile_all: "list_all P ds \<Longrightarrow> dropWhile P (ds @ r) = dropWhile P r"
  by (simp add: list_all_iff)

lemma list_all_takeWhile: "list_all P (takeWhile P xs)"
  by (induction xs) auto

lemma match_spread_here_sound:
  assumes "match_spread_here s = Some m"
  shows "signed_decimal m \<and> (\<exists>post. s = m @ post)"
proof -
  define sgn where "sgn = (case s of [] \<Rightarrow> [] | c # r \<Rightarrow> if is_sign c then [c] else [])"
  define r where "r = drop (length sgn) s"
  define ds where "ds = takeWhile is_digit r"
  define r' where "r' = dropWhile is_digit r"
  define frac where "frac = (case r' of [] \<Rightarrow> []
                  | c # r'' \<Rightarrow>
                      if c = CHR ''.'' \<and> takeWhile is_digit r'' \<noteq> []
                      then c # takeWhile is_digit r'' else [])"
  have m: "m = sgn @ ds @ frac" and ne: "ds \<noteq> []"
    using assms unfolding match_spread_here_def Let_def sgn_def r_def ds_def r'_def frac_def
    by (auto split: if_splits)
  have s1: "s = sgn @ r"
    unfolding r_def sgn_def by (auto split: list.splits)
  have sg: "sgn = [] \<or> sgn = ''-'' \<or> sgn = ''+''"
    unfolding sgn_def by (auto split: list.splits simp: is_sign_def)
  have s2: "r = ds @ r'"
    unfolding ds_def r'_def by simp
  have fr: "\<exists>post. r' = frac @ post"
    unfolding frac_def by (auto split: list.splits) (metis takeWhile_dropWhile_id)
  have fr2: "frac = [] \<or> (\<exists>fs. frac = CHR ''.'' # fs \<and> fs \<noteq> [] \<and> list_all is_digit fs)"
    unfolding frac_def by (auto split: list.splits simp: list_all_takeWhile)
  have "list_all is_digit ds"
    unfolding ds_def by (rule list_all_takeWhile)
  with m ne sg fr2 have "signed_decimal m"
    unfolding signed_decimal_def by blast
  moreover from s1 s2 fr m have "\<exists>post. s = m @ post" by auto
  ultimately show ?thesis by blast
qed

lemma match_spread_here_longest:
  assumes "signed_decimal m'" and "s = m' @ post'"
  shows "\<exists>m. match_spread_here s = Some m \<and> length m' \<le> length m"
proof -
  from assms(1) obtain sg ds fr where m': "m' = sg @ ds @ fr"
    and sg: "sg = [] \<or> sg = ''-'' \<or> sg = ''+''"
    and ds: "ds \<noteq> []" "list_all is_digit ds"
    and fr: "fr = [] \<or> (\<exists>fs. fr = CHR ''.'' # fs \<and> fs \<noteq> [] \<and> list_all is_digit fs)"
    unfolding signed_decimal_def by blast
  obtain d ds' where dd: "ds = d # ds'" "is_digit d"
    using ds by (cases ds) auto
  have sgn: "(case s of [] \<Rightarrow> [] | c # r \<Rightarrow> if is_sign c then [c] else []) = sg"
    using sg dd digit_not_sign[of d] by (auto simp: assms(2) m' is_sign_def)
  have r: "drop (length sg) s = ds @ fr @ post'"
    by (simp add: assms(2) m')
  have tw: "takeWhile is_digit (ds @ fr @ post') = ds @ takeWhile is_digit (fr @ post')"
    using ds(2) by (rule takeWhile_all)
  have dw: "dropWhile is_digit (ds @ fr @ post') = dropWhile is_digit (fr @ post')"
    using ds(2) by (rule dropWhile_all)
  show ?thesis
  proof (cases "fr = []")
    case True
    then show ?thesis
      using ds(1) unfolding match_spread_here_def Let_def sgn r tw dw
      by (simp add: m')
  next
    case False
    with fr obtain fs where fs: "fr = CHR ''.'' # fs" "fs \<noteq> []" "list_all is_digit fs"
      by blast
    have tw2: "takeWhile is_digit (fr @ post') = []" and dw2: "dropWhile is_digit (fr @ post') = CHR ''.'' # fs @ post'"
      using dot_not_digit by (simp_all add: fs)
    have tw3: "takeWhile is_digit (fs @ post') = fs @ takeWhile is_digit post'"
      using fs(3) by (rule takeWhile_all)
    show ?thesis
      using ds(1) fs(2) unfolding match_spread_here_def Let_def sgn r tw dw tw2 dw2
      by (simp add: m' tw3 fs(1))
  qed
qed


lemma match_spread_here_none:
  "match_spread_here s = None \<Longrightarrow> s = m' @ post' \<Longrightarrow> \<not> signed_decimal m'"
  using match_spread_here_longest by fastforce

lemma re_search_spread_none:
  "re_search_spread s = None \<Longrightarrow> s = pre @ r \<Longrightarrow> match_spread_here r = None"
proof (induction s arbitrary: pre)
  case Nil
  then show ?case by (simp add: match_spread_here_def)
next
  case (Cons c cs)
  show ?case
  proof (cases pre)
    case Nil
    with Cons.prems have "r = c # cs" by simp
    with Cons.prems(1) show ?thesis by (simp split: option.splits)
  next
    case (Cons p pre')
    with Cons.prems have "re_search_spread cs = None" "cs = pre' @ r"
      by (simp_all split: option.splits)
    then show ?thesis by (rule Cons.IH)
  qed
qed

lemma re_search_spread_some:
  "re_search_spread s = Some m \<Longrightarrow>
     \<exists>pre post. s = pre @ m @ post \<and> match_spread_here (m @ post) = Some m \<and>
       (\<forall>pre' r. s = pre' @ r \<and> length pre' < length pre \<longrightarrow> match_spread_here r = None)"
proof (induction s)
  case Nil
  then show ?case by simp
next
  case (Cons c cs)
  show ?case
  proof (cases "match_spread_here (c # cs)")
    case (Some m0)
    with Cons.prems have eq: "m0 = m" by simp
    from Some obtain post where "c # cs = m0 @ post"
      using match_spread_here_sound by blast
    with Some eq have "c # cs = [] @ m @ post \<and> match_spread_here (m @ post) = Some m"
      by simp
    then show ?thesis by (metis length_0_conv less_nat_zero_code list.size(3))
  next
    case None
    with Cons.prems have "re_search_spread cs = Some m" by simp
    from Cons.IH[OF this] obtain pre post where
      cs: "cs = pre @ m @ post" and here: "match_spread_here (m @ post) = Some m"
      and left: "\<forall>pre' r. cs = pre' @ r \<and> length pre' < length pre \<longrightarrow> match_spread_here r = None"
      by blast
    have "\<forall>pre' r. c # cs = pre' @ r \<and> length pre' < length (c # pre) \<longrightarrow> match_spread_here r = None"
    proof (intro allI impI)
      fix pre' r
      assume a: "c # cs = pre' @ r \<and> length pre' < length (c # pre)"
      show "match_spread_here r = None"
      proof (cases pre')
        case Nil
        with a None show ?thesis by simp
      next
        case (Cons p q)
        with a have "cs = q @ r \<and> length q < length pre" by simp
        with left show ?thesis by blast
      qed
    qed
    moreover have "c # cs = (c # pre) @ m @ post" using cs by simp
    ultimately show ?thesis using here by blast
  qed
qed

lemma same_start_prefix:
  assumes "pre @ r = pre' @ r'" "length pre = length pre'"
  shows "pre = pre' \<and> r = r'"
  using assms by (simp add: append_eq_append_conv)

lemma re_search_spread_first:
  assumes "re_search_spread s = Some m"
  shows "first_numeral s m"
proof -
  from re_search_spread_some[OF assms] obtain pre post where
    s: "s = pre @ m @ post" and here: "match_spread_here (m @ post) = Some m"
    and left: "\<forall>pre' r. s = pre' @ r \<and> length pre' < length pre \<longrightarrow> match_spread_here r = None"
    by blast
  have dec: "signed_decimal m"
    using match_spread_here_sound[OF here] by blast
  have "length pre \<le> length pre' \<and> (length pre' = length pre \<longrightarrow> length m' \<le> length m)"
    if h: "s = pre' @ m' @ post'" "signed_decimal m'" for pre' m' post'
  proof
    show "length pre \<le> length pre'"
    proof (rule ccontr)
      assume "\<not> length pre \<le> length pre'"
      then have "length pre' < length pre" by simp
      with left h(1) have "match_spread_here (m' @ post') = None" by blast
      with h(2) show False using match_spread_here_none by blast
    qed
    show "length pre' = length pre \<longrightarrow> length m' \<le> length m"
    proof
      assume "length pre' = length pre"
      with s h(1) have "m @ post = m' @ post'"
        using same_start_prefix[of pre "m @ post" pre' "m' @ post'"] by simp
      with h(2) here show "length m' \<le> length m"
        using match_spread_here_longest[of m' "m @ post" post'] by simp
    qed
  qed
  with s dec show ?thesis unfolding first_numeral_def by blast
qed

lemma first_numeral_unique:
  assumes "first_numeral s m" "first_numeral s m'"
  shows "m = m'"
proof -
  from assms(1) obtain pre post where a: "s = pre @ m @ post" "signed_decimal m"
    and amin: "\<forall>p x q. s = p @ x @ q \<and> signed_decimal x \<longrightarrow>
           length pre \<le> length p \<and> (length p = length pre \<longrightarrow> length x \<le> length m)"
    unfolding first_numeral_def by blast
  from assms(2) obtain pre' post' where b: "s = pre' @ m' @ post'" "signed_decimal m'"
    and bmin: "\<forall>p x q. s = p @ x @ q \<and> signed_decimal x \<longrightarrow>
           length pre' \<le> length p \<and> (length p = length pre' \<longrightarrow> length x \<le> length m')"
    unfolding first_numeral_def by blast
  from amin b have 1: "length pre \<le> length pre'" by blast
  from bmin a have 2: "length pre' \<le> length pre" by blast
  from 1 2 have eq: "length pre = length pre'" by simp
  with amin b have 3: "length m' \<le> length m" by metis
  from eq bmin a have 4: "length m \<le> length m'" by metis
  from a(1) b(1) eq have "m @ post = m' @ post'"
    using same_start_prefix[of pre "m @ post" pre' "m' @ post'"] by simp
  with 3 4 show ?thesis by (simp add: append_eq_append_conv)
qed

lemma first_numeral_search:
  assumes "first_numeral s m"
  shows "re_search_spread s = Some m"
proof (cases "re_search_spread s")
  case None
  from assms obtain pre post where "s = pre @ m @ post" "signed_decimal m"
    unfolding first_numeral_def by blast
  with re_search_spread_none[OF None, of pre "m @ post"] match_spread_here_none
  show ?thesis by blast
next
  case (Some m0)
  then have "first_numeral s m0" by (rule re_search_spread_first)
  with assms have "m = m0" by (rule first_numeral_unique)
  with Some show ?thesis by simp
qed

lemma py_float_numeral:
  assumes "signed_decimal m"
  shows "\<exists>v. py_float m = Inr v"
proof -
  from assms obtain sg ds fr where m: "m = sg @ ds @ fr"
    and sg: "sg = [] \<or> sg = ''-'' \<or> sg = ''+''"
    and ds: "ds \<noteq> []" "list_all is_digit ds"
    and fr: "fr = [] \<or> (\<exists>fs. fr = CHR ''.'' # fs \<and> fs \<noteq> [] \<and> list_all is_digit fs)"
    unfolding signed_decimal_def by blast
  obtain d ds' where dd: "ds = d # ds'" "is_digit d"
    using ds by (cases ds) auto
  have sgn: "(case m of [] \<Rightarrow> [] | c # r \<Rightarrow> if is_sign c then [c] else []) = sg"
    using sg dd digit_not_sign[of d] by (auto simp: m is_sign_def)
  have r: "drop (length sg) m = ds @ fr"
    by (simp add: m)
  have tw: "takeWhile is_digit (ds @ fr) = ds @ takeWhile is_digit fr"
    using ds(2) by (rule takeWhile_all)
  have dw: "dropWhile is_digit (ds @ fr) = dropWhile is_digit fr"
    using ds(2) by (rule dropWhile_all)
  show ?thesis
  proof (cases "fr = []")
    case True
    then show ?thesis
      using ds(1) unfolding py_float_def Let_def sgn r tw dw by simp
  next
    case False
    with fr obtain fs where fs: "fr = CHR ''.'' # fs" "fs \<noteq> []" "list_all is_digit fs"
      by blast
    have tw2: "takeWhile is_digit fr = []" and dw2: "dropWhile is_digit fr = CHR ''.'' # fs"
      using dot_not_digit by (simp_all add: fs)
    show ?thesis
      using ds(1) fs(2,3) unfolding py_float_def Let_def sgn r tw dw tw2 dw2 by simp
  qed
qed

lemma extract_spread_total: "\<exists>v. extract_spread s = Inr v"
proof (cases "re_search_spread s")
  case None
  then show ?thesis by (simp add: extract_spread_def)
next
  case (Some m)
  then have "signed_decimal m"
    using re_search_spread_first unfolding first_numeral_def by blast
  then obtain v where "py_float m = Inr v" using py_float_numeral by blast
  with Some show ?thesis by (simp add: extract_spread_def)
qed

lemma first_numeral_has: "first_numeral s m \<Longrightarrow> has_numeral s"
  unfolding first_numeral_def has_numeral_def by blast

lemma re_search_spread_none_iff: "re_search_spread s = None \<longleftrightarrow> \<not> has_numeral s"
proof
  assume none: "re_search_spread s = None"
  show "\<not> has_numeral s"
  proof
    assume "has_numeral s"
    then obtain pre m post where h: "s = pre @ m @ post" "signed_decimal m"
      unfolding has_numeral_def by blast
    from none h(1) have "match_spread_here (m @ post) = None"
      by (rule re_search_spread_none)
    then have "\<not> signed_decimal m"
      by (rule match_spread_here_none) simp
    with h(2) show False by simp
  qed
next
  assume no: "\<not> has_numeral s"
  show "re_search_spread s = None"
  proof (cases "re_search_spread s")
    case None
    then show ?thesis .
  next
    case (Some m)
    then have "first_numeral s m" by (rule re_search_spread_first)
    then have "has_numeral s" by (rule first_numeral_has)
    with no show ?thesis by simp
  qed
qed

text \<open>
  Claim C6. For every text, \<^verbatim>\<open>extract_spread\<close> returns a value and never raises. When the
  text holds a signed decimal numeral, the value is the one \<^verbatim>\<open>float\<close> parses from the first
  such numeral; when it holds none, the value is \<open>0.0\<close>. In particular
  \<^verbatim>\<open>extract_spread("+3.5 pts") = 3.5\<close>, \<^verbatim>\<open>extract_spread("no number") = 0.0\<close> and
  \<^verbatim>\<open>extract_spread("-7") = -7.0\<close>.
\<close>

theorem extract_spread_first_numeral:
  "(\<exists>v. extract_spread s = Inr v)
   \<and> (\<forall>m. first_numeral s m \<longrightarrow> (\<exists>v. py_float m = Inr v \<and> extract_spread s = Inr v))
   \<and> (has_numeral s \<longrightarrow> (\<exists>m. first_numeral s m))
   \<and> (\<not> has_numeral s \<longrightarrow> extract_spread s = Inr 0)
   \<and> extract_spread ''+3.5 pts'' = Inr (35 / 10)
   \<and> extract_spread ''no number'' = Inr 0
   \<and> extract_spread ''-7'' = Inr (- 7)"
proof (intro conjI allI impI)
  show "\<exists>v. extract_spread s = Inr v" by (rule extract_spread_total)
next
  fix m assume fm: "first_numeral s m"
  then have srch: "re_search_spread s = Some m" by (rule first_numeral_search)
  from fm have "signed_decimal m" unfolding first_numeral_def by blast
  then obtain v where "py_float m = Inr v" using py_float_numeral by blast
  with srch show "\<exists>v. py_float m = Inr v \<and> extract_spread s = Inr v"
    by (simp add: extract_spread_def)
next
  assume "has_numeral s"
  then have "re_search_spread s \<noteq> None" by (simp add: re_search_spread_none_iff)
  then obtain m where "re_search_spread s = Some m" by blast
  then have "first_numeral s m" by (rule re_search_spread_first)
  then show "\<exists>m. first_numeral s m" ..
next
  assume "\<not> has_numeral s"
  then have "re_search_spread s = None" by (simp add: re_search_spread_none_iff)
  then show "extract_spread s = Inr 0" by (simp add: extract_spread_def)
next
  show "extract_spread ''+3.5 pts'' = Inr (35 / 10)"
    by (simp add: extract_spread_def match_spread_here_def py_float_def is_sign_def is_digit_def nat_of_digits_def)
  show "extract_spread ''no number'' = Inr 0"
    by (simp add: extract_spread_def match_spread_here_def py_float_def is_sign_def is_digit_def nat_of_digits_def)
  show "extract_spread ''-7'' = Inr (- 7)"
    by (simp add: extract_spread_def match_spread_here_def py_float_def is_sign_def is_digit_def nat_of_digits_def)
qed

theorem extract_spread_first_numeral_witness:
  "has_numeral ''o 47.5 (-110)'' \<and> first_numeral ''o 47.5 (-110)'' ''47.5''
   \<and> \<not> has_numeral ''no number''
   \<and> extract_spread ''o 47.5 (-110)'' = Inr (95 / 2) \<and> extract_spread ''no number'' = Inr 0"
proof -
  have srch: "re_search_spread ''o 47.5 (-110)'' = Some ''47.5''"
    by (simp add: match_spread_here_def is_sign_def is_digit_def)
  then have fn: "first_numeral ''o 47.5 (-110)'' ''47.5''" by (rule re_search_spread_first)
  then have hn: "has_numeral ''o 47.5 (-110)''" by (rule first_numeral_has)
  have "re_search_spread ''no number'' = None"
    by (simp add: match_spread_here_def is_sign_def is_digit_def)
  then have nn: "\<not> has_numeral ''no number''"
    by (rule iffD1[OF re_search_spread_none_iff])
  have fl: "py_float ''47.5'' = Inr (95 / 2)"
    by (simp add: py_float_def is_sign_def is_digit_def nat_of_digits_def)
  have all: "\<forall>m. first_numeral ''o 47.5 (-110)'' m \<longrightarrow>
      (\<exists>v. py_float m = Inr v \<and> extract_spread ''o 47.5 (-110)'' = Inr v)"
    using extract_spread_first_numeral[of "''o 47.5 (-110)''"] by (elim conjE)
  from all fn obtain v where "py_float ''47.5'' = Inr v" "extract_spread ''o 47.5 (-110)'' = Inr v"
    by blast
  with fl have e1: "extract_spread ''o 47.5 (-110)'' = Inr (95 / 2)" by simp
  have "\<not> has_numeral ''no number'' \<longrightarrow> extract_spread ''no number'' = Inr 0"
    using extract_spread_first_numeral[of "''no number''"] by (elim conjE)
  with nn have e2: "extract_spread ''no number'' = Inr 0" by (rule rev_mp)
  from hn fn nn e1 e2 show ?thesis by (intro conjI)
qed

subsection \<open>The price pattern finds the first parenthesized integer\<close>

lemma paren_not_digit: "\<not> is_digit CHR '')''"
  by (simp add: is_digit_def)

lemma match_price_here_sound:
  assumes "match_price_here s = Some m"
  shows "signed_int m \<and> (\<exists>post. s = in_parens m @ post)"
proof -
  from assms obtain t where s: "s = CHR ''('' # t"
    unfolding match_price_here_def by (auto split: list.splits if_splits)
  define sgn where "sgn = (case t of [] \<Rightarrow> [] | c # r \<Rightarrow> if is_sign c then [c] else [])"
  define r where "r = drop (length sgn) t"
  define ds where "ds = takeWhile is_digit r"
  define r' where "r' = dropWhile is_digit r"
  have m: "m = sgn @ ds" and ne: "ds \<noteq> []" and cl: "startswith r' '')''"
    using assms unfolding match_price_here_def Let_def s sgn_def r_def ds_def r'_def
    by (auto split: if_splits)
  have t1: "t = sgn @ r"
    unfolding r_def sgn_def by (auto split: list.splits)
  have sg: "sgn = [] \<or> sgn = ''-'' \<or> sgn = ''+''"
    unfolding sgn_def by (auto split: list.splits simp: is_sign_def)
  have t2: "r = ds @ r'"
    unfolding ds_def r'_def by simp
  from cl obtain post where t3: "r' = CHR '')'' # post"
    by (cases r') auto
  have "list_all is_digit ds"
    unfolding ds_def by (rule list_all_takeWhile)
  with m ne sg have "signed_int m"
    unfolding signed_int_def by blast
  moreover have "s = in_parens m @ post"
    by (simp add: s t1 t2 t3 m in_parens_def)
  ultimately show ?thesis by blast
qed

lemma match_price_here_complete:
  assumes "signed_int m" and "s = in_parens m @ post"
  shows "match_price_here s = Some m"
proof -
  from assms(1) obtain sg ds where m: "m = sg @ ds"
    and sg: "sg = [] \<or> sg = ''-'' \<or> sg = ''+''"
    and ds: "ds \<noteq> []" "list_all is_digit ds"
    unfolding signed_int_def by blast
  obtain d ds' where dd: "ds = d # ds'" "is_digit d"
    using ds by (cases ds) auto
  define t where "t = sg @ ds @ CHR '')'' # post"
  have s: "s = CHR ''('' # t"
    by (simp add: assms(2) in_parens_def m t_def)
  have sgn: "(case t of [] \<Rightarrow> [] | c # r \<Rightarrow> if is_sign c then [c] else []) = sg"
    using sg dd digit_not_sign[of d] by (auto simp: t_def is_sign_def)
  have r: "drop (length sg) t = ds @ CHR '')'' # post"
    by (simp add: t_def)
  have tw: "takeWhile is_digit (ds @ CHR '')'' # post) = ds"
    using takeWhile_all[OF ds(2), of "CHR '')'' # post"] paren_not_digit by simp
  have dw: "dropWhile is_digit (ds @ CHR '')'' # post) = CHR '')'' # post"
    using dropWhile_all[OF ds(2), of "CHR '')'' # post"] paren_not_digit by simp
  show ?thesis
    using ds(1) unfolding match_price_here_def Let_def s list.case sgn r tw dw
    by (simp add: m)
qed

lemma re_search_price_none:
  "re_search_price s = None \<Longrightarrow> s = pre @ r \<Longrightarrow> match_price_here r = None"
proof (induction s arbitrary: pre)
  case Nil
  then show ?case by (simp add: match_price_here_def)
next
  case (Cons c cs)
  show ?case
  proof (cases pre)
    case Nil
    with Cons.prems have "r = c # cs" by simp
    with Cons.prems(1) show ?thesis by (simp split: option.splits)
  next
    case (Cons p pre')
    with Cons.prems have "re_search_price cs = None" "cs = pre' @ r"
      by (simp_all split: option.splits)
    then show ?thesis by (rule Cons.IH)
  qed
qed

lemma re_search_price_some:
  "re_search_price s = Some m \<Longrightarrow>
     \<exists>pre r. s = pre @ r \<and> match_price_here r = Some m \<and>
       (\<forall>pre' r'. s = pre' @ r' \<and> length pre' < length pre \<longrightarrow> match_price_here r' = None)"
proof (induction s)
  case Nil
  then show ?case by simp
next
  case (Cons c cs)
  show ?case
  proof (cases "match_price_here (c # cs)")
    case (Some m0)
    with Cons.prems have "c # cs = [] @ (c # cs) \<and> match_price_here (c # cs) = Some m"
      by simp
    then show ?thesis by (metis length_0_conv less_nat_zero_code list.size(3))
  next
    case None
    with Cons.prems have "re_search_price cs = Some m" by simp
    from Cons.IH[OF this] obtain pre r where
      cs: "cs = pre @ r" and here: "match_price_here r = Some m"
      and left: "\<forall>pre' r'. cs = pre' @ r' \<and> length pre' < length pre \<longrightarrow> match_price_here r' = None"
      by blast
    have "\<forall>pre' r'. c # cs = pre' @ r' \<and> length pre' < length (c # pre) \<longrightarrow> match_price_here r' = None"
    proof (intro allI impI)
      fix pre' r'
      assume a: "c # cs = pre' @ r' \<and> length pre' < length (c # pre)"
      show "match_price_here r' = None"
      proof (cases pre')
        case Nil
        with a None show ?thesis by simp
      next
        case (Cons p q)
        with a have "cs = q @ r' \<and> length q < length pre" by simp
        with left show ?thesis by blast
      qed
    qed
    moreover have "c # cs = (c # pre) @ r" using cs by simp
    ultimately show ?thesis using here by blast
  qed
qed

lemma re_search_price_first:
  assumes "re_search_price s = Some m"
  shows "first_price s m"
proof -
  from re_search_price_some[OF assms] obtain pre r where
    s: "s = pre @ r" and here: "match_price_here r = Some m"
    and left: "\<forall>pre' r'. s = pre' @ r' \<and> length pre' < length pre \<longrightarrow> match_price_here r' = None"
    by blast
  from match_price_here_sound[OF here] obtain post where
    int: "signed_int m" and r: "r = in_parens m @ post" by blast
  have "length pre \<le> length pre'"
    if h: "s = pre' @ in_parens m' @ post'" "signed_int m'" for pre' m' post'
  proof (rule ccontr)
    assume "\<not> length pre \<le> length pre'"
    then have "length pre' < length pre" by simp
    with left h(1) have "match_price_here (in_parens m' @ post') = None" by blast
    moreover have "match_price_here (in_parens m' @ post') = Some m'"
      using h(2) by (rule match_price_here_complete) simp
    ultimately show False by simp
  qed
  with s r int show ?thesis unfolding first_price_def by blast
qed

lemma first_price_search:
  assumes "first_price s m"
  shows "re_search_price s = Some m"
proof -
  from assms obtain pre post where s: "s = pre @ in_parens m @ post" and int: "signed_int m"
    and left: "\<forall>pre' m' post'. s = pre' @ in_parens m' @ post' \<and> signed_int m' \<longrightarrow>
           length pre \<le> length pre'"
    unfolding first_price_def by blast
  have here: "match_price_here (in_parens m @ post) = Some m"
    using int by (rule match_price_here_complete) simp
  show ?thesis
  proof (cases "re_search_price s")
    case None
    from None s have "match_price_here (in_parens m @ post) = None"
      by (rule re_search_price_none)
    with here show ?thesis by simp
  next
    case (Some m0)
    from re_search_price_some[OF Some] obtain pre0 r0 where
      s0: "s = pre0 @ r0" and here0: "match_price_here r0 = Some m0"
      and left0: "\<forall>pre' r'. s = pre' @ r' \<and> length pre' < length pre0 \<longrightarrow> match_price_here r' = None"
      by blast
    from match_price_here_sound[OF here0] obtain post0 where
      int0: "signed_int m0" and r0: "r0 = in_parens m0 @ post0" by blast
    from left s0 r0 int0 have 1: "length pre \<le> length pre0" by blast
    have 2: "\<not> length pre < length pre0"
    proof
      assume "length pre < length pre0"
      with left0 s have "match_price_here (in_parens m @ post) = None" by blast
      with here show False by simp
    qed
    from 1 2 have "length pre = length pre0" by simp
    with s s0 have "in_parens m @ post = r0"
      using same_start_prefix[of pre "in_parens m @ post" pre0 r0] by simp
    with here here0 have "m0 = m" by simp
    with Some show ?thesis by simp
  qed
qed

lemma first_price_has: "first_price s m \<Longrightarrow> has_price s"
  unfolding first_price_def has_price_def by blast

lemma re_search_price_none_iff: "re_search_price s = None \<longleftrightarrow> \<not> has_price s"
proof
  assume none: "re_search_price s = None"
  show "\<not> has_price s"
  proof
    assume "has_price s"
    then obtain pre m post where h: "s = pre @ in_parens m @ post" "signed_int m"
      unfolding has_price_def by blast
    from none h(1) have "match_price_here (in_parens m @ post) = None"
      by (rule re_search_price_none)
    moreover have "match_price_here (in_parens m @ post) = Some m"
      using h(2) by (rule match_price_here_complete) simp
    ultimately show False by simp
  qed
next
  assume no: "\<not> has_price s"
  show "re_search_price s = None"
  proof (cases "re_search_price s")
    case None
    then show ?thesis .
  next
    case (Some m)
    then have "first_price s m" by (rule re_search_price_first)
    then have "has_price s" by (rule first_price_has)
    with no show ?thesis by simp
  qed
qed

lemma hd_rev_dropWhile_rev:
  assumes "dropWhile P (rev t) \<noteq> []"
  shows "hd (rev (dropWhile P (rev t))) = hd t"
proof -
  have "t = rev (dropWhile P (rev t)) @ rev (takeWhile P (rev t))"
    by (metis rev_append rev_rev_ident takeWhile_dropWhile_id)
  then show ?thesis using assms by (metis hd_append2 rev_is_Nil_conv)
qed

lemma py_strip_trimmed: "trimmed s (py_strip s)"
proof -
  define a where "a = takeWhile is_space s"
  define t where "t = dropWhile is_space s"
  define b where "b = rev (takeWhile is_space (rev t))"
  have s: "s = a @ t" unfolding a_def t_def by simp
  have t: "t = py_strip s @ b"
    unfolding py_strip_def b_def t_def[symmetric]
    by (metis rev_append rev_rev_ident takeWhile_dropWhile_id)
  have a: "list_all is_space a" unfolding a_def by (rule list_all_takeWhile)
  have b: "list_all is_space b" unfolding b_def by (simp add: list_all_takeWhile)
  have ends: "\<not> is_space (hd (py_strip s)) \<and> \<not> is_space (last (py_strip s))" if ne: "py_strip s \<noteq> []"
  proof
    from ne have d: "dropWhile is_space (rev t) \<noteq> []"
      unfolding py_strip_def t_def by simp
    then have tne: "t \<noteq> []" by auto
    have "hd (py_strip s) = hd t"
      unfolding py_strip_def t_def[symmetric] using d by (rule hd_rev_dropWhile_rev)
    moreover have "\<not> is_space (hd t)"
      using tne unfolding t_def by (rule hd_dropWhile)
    ultimately show "\<not> is_space (hd (py_strip s))" by simp
    have "last (py_strip s) = hd (dropWhile is_space (rev t))"
      unfolding py_strip_def t_def[symmetric] using d by (simp add: last_rev)
    moreover have "\<not> is_space (hd (dropWhile is_space (rev t)))"
      using d by (rule hd_dropWhile)
    ultimately show "\<not> is_space (last (py_strip s))" by simp
  qed
  from s t have "s = a @ py_strip s @ b" by simp
  with a b ends show ?thesis unfolding trimmed_def by blast
qed

text \<open>
  Claim C7. For every text, \<^verbatim>\<open>extract_price\<close> returns the signed integer of the first
  parenthesized signed integer of the text, without the parentheses; when the text holds
  no such pattern it returns the text with the whitespace at both ends removed. It is a
  total function, so it never raises. In particular \<^verbatim>\<open>extract_price("(-110)") = "-110"\<close>
  and \<^verbatim>\<open>extract_price("even") = "even"\<close>.
\<close>

theorem extract_price_first_parenthesized:
  "(\<forall>m. first_price s m \<longrightarrow> extract_price s = m)
   \<and> (has_price s \<longrightarrow> (\<exists>m. first_price s m))
   \<and> (\<not> has_price s \<longrightarrow> extract_price s = py_strip s \<and> trimmed s (extract_price s))
   \<and> extract_price ''(-110)'' = ''-110''
   \<and> extract_price ''even'' = ''even''"
proof (intro conjI allI impI)
  fix m assume "first_price s m"
  then have "re_search_price s = Some m" by (rule first_price_search)
  then show "extract_price s = m" by (simp add: extract_price_def)
next
  assume "has_price s"
  then have "re_search_price s \<noteq> None" by (simp add: re_search_price_none_iff)
  then obtain m where "re_search_price s = Some m" by blast
  then have "first_price s m" by (rule re_search_price_first)
  then show "\<exists>m. first_price s m" ..
next
  assume "\<not> has_price s"
  then have "re_search_price s = None" by (simp add: re_search_price_none_iff)
  then show e: "extract_price s = py_strip s" by (simp add: extract_price_def)
  show "trimmed s (extract_price s)" unfolding e by (rule py_strip_trimmed)
next
  show "extract_price ''(-110)'' = ''-110''"
    by (simp add: extract_price_def match_price_here_def is_sign_def is_digit_def)
  show "extract_price ''even'' = ''even''"
    by (simp add: extract_price_def match_price_here_def is_sign_def is_digit_def py_strip_def is_space_def)
qed

theorem extract_price_first_parenthesized_witness:
  "first_price ''-3.5 (-110)'' ''-110'' \<and> has_price ''-3.5 (-110)''
   \<and> \<not> has_price '' +250  ''
   \<and> extract_price ''-3.5 (-110)'' = ''-110'' \<and> extract_price '' +250  '' = ''+250''"
proof -
  have "re_search_price ''-3.5 (-110)'' = Some ''-110''"
    by (simp add: match_price_here_def is_sign_def is_digit_def)
  then have fp: "first_price ''-3.5 (-110)'' ''-110''" by (rule re_search_price_first)
  then have hp: "has_price ''-3.5 (-110)''" by (rule first_price_has)
  have "re_search_price '' +250  '' = None"
    by (simp add: match_price_here_def is_sign_def is_digit_def)
  then have np: "\<not> has_price '' +250  ''"
    by (rule iffD1[OF re_search_price_none_iff])
  have st: "py_strip '' +250  '' = ''+250''"
    by (simp add: py_strip_def is_space_def)
  have "\<forall>m. first_price ''-3.5 (-110)'' m \<longrightarrow> extract_price ''-3.5 (-110)'' = m"
    using extract_price_first_parenthesized[of "''-3.5 (-110)''"] by (elim conjE)
  with fp have e1: "extract_price ''-3.5 (-110)'' = ''-110''" by blast
  have "\<not> has_price '' +250  '' \<longrightarrow>
      extract_price '' +250  '' = py_strip '' +250  '' \<and> trimmed '' +250  '' (extract_price '' +250  '')"
    using extract_price_first_parenthesized[of "'' +250  ''"] by (elim conjE)
  with np st have e2: "extract_price '' +250  '' = ''+250''" by simp
  from fp hp np e1 e2 show ?thesis by (intro conjI)
qed

section \<open>Properties of the row extractor\<close>

subsection \<open>Statements only append\<close>

lemma appendsI:
  assumes "\<And>st. b st = (st\<lparr>items := items st @ xs\<rparr>, e)"
  shows "appends b" and "block_out b = (xs, e)"
proof -
  show bo: "block_out b = (xs, e)"
    unfolding block_out_def by (simp add: assms init_state_def)
  show "appends b"
    unfolding appends_def bo by (simp add: assms)
qed

lemma appendsD: "appends b \<Longrightarrow> b st = (st\<lparr>items := items st @ fst (block_out b)\<rparr>, snd (block_out b))"
  unfolding appends_def by blast

lemma pass_stmt_appends: "appends pass_stmt" "block_out pass_stmt = ([], None)"
  by (rule appendsI[where xs = "[]" and e = None], simp add: pass_stmt_def)+

lemma items_append_Inr: "appends (items_append (Inr it))" "block_out (items_append (Inr it)) = ([it], None)"
  by (rule appendsI[where xs = "[it]" and e = None], simp add: items_append_def)+

lemma items_append_Inl: "appends (items_append (Inl e))" "block_out (items_append (Inl e)) = ([], Some e)"
  by (rule appendsI[where xs = "[]" and e = "Some e"], simp add: items_append_def)+

lemma items_append_appends: "appends (items_append x)"
  by (cases x) (simp_all add: items_append_Inr items_append_Inl)

lemma run_seq_out:
  assumes f: "appends f" and g: "appends g"
  shows "appends (run_seq f g) \<and>
         block_out (run_seq f g) =
           (case snd (block_out f) of
              Some e \<Rightarrow> block_out f
            | None \<Rightarrow> (fst (block_out f) @ fst (block_out g), snd (block_out g)))"
proof -
  obtain xs e where bf: "block_out f = (xs, e)" by (cases "block_out f")
  obtain ys e' where bg: "block_out g = (ys, e')" by (cases "block_out g")
  have fst: "f st = (st\<lparr>items := items st @ xs\<rparr>, e)" for st
    using appendsD[OF f, of st] by (simp add: bf)
  have gst: "g st = (st\<lparr>items := items st @ ys\<rparr>, e')" for st
    using appendsD[OF g, of st] by (simp add: bg)
  show ?thesis
  proof (cases e)
    case None
    have *: "run_seq f g st = (st\<lparr>items := items st @ (xs @ ys)\<rparr>, e')" for st
      by (simp add: run_seq_def fst gst None)
    show ?thesis
      using appendsI[of "run_seq f g" "xs @ ys" e', OF *] by (simp add: bf bg None)
  next
    case (Some x)
    have *: "run_seq f g st = (st\<lparr>items := items st @ xs\<rparr>, e)" for st
      by (simp add: run_seq_def fst Some)
    show ?thesis
      using appendsI[of "run_seq f g" xs e, OF *] by (simp add: bf Some)
  qed
qed

lemma run_seq_appends: "appends f \<Longrightarrow> appends g \<Longrightarrow> appends (run_seq f g)"
  using run_seq_out by blast

lemma moneyline_block_appends: "appends (moneyline_block league d t1 t2 per r)"
proof (cases "2 \<le> length (moneyline_prices r)")
  case True
  then show ?thesis
    unfolding moneyline_block_def
    by (simp only: if_True) (intro run_seq_appends items_append_appends)
next
  case False
  then show ?thesis
    unfolding moneyline_block_def
    by (simp only: if_False) (rule pass_stmt_appends(1))
qed

lemma draw_block_appends: "appends (draw_block league d t1 t2 per r)"
proof (cases "py_in ''SOCCER'' league \<and> 4 \<le> length (moneyline_prices r)")
  case True
  then show ?thesis
    unfolding draw_block_def
    by (simp only: if_True simp_thms) (rule items_append_appends)
next
  case False
  then show ?thesis
    unfolding draw_block_def
    by (simp only: if_False simp_thms) (rule pass_stmt_appends(1))
qed

lemma spread_block_appends: "appends (spread_block league d t1 t2 per r)"
proof (cases "2 \<le> length (spread_prices r)")
  case True
  then show ?thesis
    unfolding spread_block_def
    by (simp only: if_True) (intro run_seq_appends items_append_appends)
next
  case False
  then show ?thesis
    unfolding spread_block_def
    by (simp only: if_False) (rule pass_stmt_appends(1))
qed

lemma over_under_block_appends: "appends (over_under_block league d t1 t2 per r)"
proof (cases "2 \<le> length (total_prices r)")
  case True
  then show ?thesis
    unfolding over_under_block_def
    by (simp only: if_True) (intro run_seq_appends items_append_appends)
next
  case False
  then show ?thesis
    unfolding over_under_block_def
    by (simp only: if_False) (rule pass_stmt_appends(1))
qed

lemma market_blocks_appends: "appends (market_blocks league d t1 t2 per r)"
  unfolding market_blocks_def
  by (intro run_seq_appends moneyline_block_appends draw_block_appends
        spread_block_appends over_under_block_appends)

lemma team_names_read:
  assumes "precondition r"
  shows "and_then (subscript (team_names r) 0) (\<lambda>t1.
           and_then (subscript (team_names r) 1) (\<lambda>t2. Inr (t1, t2)))
         = Inr (team_names r ! 0, team_names r ! 1)"
  using assms by (auto simp: precondition_def and_then_def subscript_def)

lemma row_body_skip:
  assumes "\<not> precondition r"
  shows "row_body pg d r st = (log_warning MissingDataInRow st, None)"
  using assms by (simp add: row_body_def precondition_def)

lemma row_body_run:
  assumes "precondition r"
  shows "row_body pg d r =
           market_blocks (league_of r) d (team_names r ! 0) (team_names r ! 1) (period_of pg r) r"
proof
  fix st
  have "\<not> (length (team_names r) < 2 \<or> length (moneyline_prices r) < 2)"
    using assms by (simp add: precondition_def)
  then show "row_body pg d r st =
           market_blocks (league_of r) d (team_names r ! 0) (team_names r ! 1) (period_of pg r) r st"
    unfolding row_body_def team_names_read[OF assms] by simp
qed

lemma emitted_skip: "\<not> precondition r \<Longrightarrow> emitted pg d r = []"
  and raised_skip: "\<not> precondition r \<Longrightarrow> raised pg d r = None"
  by (simp_all add: emitted_def raised_def block_out_def row_body_skip log_warning_def init_state_def)

lemma row_body_items: "items (fst (row_body pg d r st)) = items st @ emitted pg d r"
  and row_body_raised: "snd (row_body pg d r st) = raised pg d r"
  and row_body_cached: "cached_event_date (fst (row_body pg d r st)) = cached_event_date st"
proof -
  have "items (fst (row_body pg d r st)) = items st @ emitted pg d r
      \<and> snd (row_body pg d r st) = raised pg d r
      \<and> cached_event_date (fst (row_body pg d r st)) = cached_event_date st"
  proof (cases "precondition r")
    case False
    then show ?thesis
      by (simp add: row_body_skip emitted_skip raised_skip log_warning_def)
  next
    case True
    show ?thesis
      unfolding emitted_def raised_def row_body_run[OF True]
      using appendsD[OF market_blocks_appends, of "league_of r" d "team_names r ! 0" "team_names r ! 1" "period_of pg r" r st]
      by simp
  qed
  then show "items (fst (row_body pg d r st)) = items st @ emitted pg d r"
    and "snd (row_body pg d r st) = raised pg d r"
    and "cached_event_date (fst (row_body pg d r st)) = cached_event_date st"
    by simp_all
qed

lemma parse_row_items: "items (parse_row pg d r st) = items st @ emitted pg d r"
  and parse_row_cached: "cached_event_date (parse_row pg d r st) = cached_event_date st"
  using row_body_items[of pg d r st] row_body_cached[of pg d r st]
  by (auto simp: parse_row_def log_warning_def split: prod.splits option.splits)

lemma parse_rows_items:
  "items (parse_rows pg d rs st) = items st @ concat (map (emitted pg d) rs)"
  by (induction rs arbitrary: st) (simp_all add: parse_row_items)

lemma parse_rows_cached:
  "cached_event_date (parse_rows pg d rs st) = cached_event_date st"
  by (induction rs arbitrary: st) (simp_all add: parse_row_cached)

subsection \<open>What the market steps append\<close>

lemma line_item_ok:
  assumes "i < length prices" "i < length spreads"
  shows "line_item lg d t1 t2 per lt prices i sd tm spreads =
           Inr \<lparr>sport_league = lg, event_date_utc = d, team1 = t1, team2 = t2, period = per,
                line_type = lt, price = extract_price (prices ! i), side = sd, team = tm,
                spread = spread_value (spreads ! i), pitcher = []\<rparr>"
proof -
  obtain v where v: "extract_spread (spreads ! i) = Inr v"
    using extract_spread_total by blast
  then have "spread_value (spreads ! i) = v" by (simp add: spread_value_def)
  with assms v show ?thesis
    by (simp add: line_item_def and_then_def subscript_def)
qed

lemma line_item_fail:
  assumes "\<not> (i < length prices \<and> i < length spreads)"
  shows "line_item lg d t1 t2 per lt prices i sd tm spreads = Inl IndexError"
  using assms by (auto simp: line_item_def and_then_def subscript_def)

lemma moneyline_block_full:
  assumes "3 \<le> length (moneyline_prices r)" "3 \<le> length (spread_prices r)"
  shows "block_out (moneyline_block lg d t1 t2 per r) =
     ([\<lparr>sport_league = lg, event_date_utc = d, team1 = t1, team2 = t2, period = per,
         line_type = ''moneyline'', price = extract_price (moneyline_prices r ! 1), side = t1,
         team = t1, spread = spread_value (spread_prices r ! 1), pitcher = []\<rparr>,
       \<lparr>sport_league = lg, event_date_utc = d, team1 = t1, team2 = t2, period = per,
         line_type = ''moneyline'', price = extract_price (moneyline_prices r ! 2), side = t2,
         team = t2, spread = spread_value (spread_prices r ! 2), pitcher = []\<rparr>], None)"
proof -
  have 1: "1 < length (moneyline_prices r)" "1 < length (spread_prices r)"
    and 2: "2 < length (moneyline_prices r)" "2 < length (spread_prices r)"
    and g: "2 \<le> length (moneyline_prices r)"
    using assms by simp_all
  show ?thesis
    unfolding moneyline_block_def
    by (simp only: g if_True line_item_ok[OF 1] line_item_ok[OF 2]
          run_seq_out[OF items_append_Inr(1) items_append_Inr(1)] items_append_Inr(2))
       simp
qed

lemma draw_block_out:
  "block_out (draw_block lg d t1 t2 per r) =
     (if py_in ''SOCCER'' lg \<and> 4 \<le> length (moneyline_prices r)
      then [\<lparr>sport_league = lg, event_date_utc = d, team1 = t1, team2 = t2, period = per,
              line_type = ''moneyline'',
              price = py_strip (py_replace (moneyline_prices r ! 3) draw_marker []),
              side = ''draw'', team = ''draw'', spread = 0, pitcher = []\<rparr>]
      else [], None)"
proof (cases "py_in ''SOCCER'' lg \<and> 4 \<le> length (moneyline_prices r)")
  case True
  then have "3 < length (moneyline_prices r)" by simp
  then have "draw_item lg d t1 t2 per r =
      Inr \<lparr>sport_league = lg, event_date_utc = d, team1 = t1, team2 = t2, period = per,
              line_type = ''moneyline'',
              price = py_strip (py_replace (moneyline_prices r ! 3) draw_marker []),
              side = ''draw'', team = ''draw'', spread = 0, pitcher = []\<rparr>"
    by (simp add: draw_item_def and_then_def subscript_def)
  with True show ?thesis
    unfolding draw_block_def by (simp only: if_True simp_thms items_append_Inr(2))
next
  case False
  then show ?thesis
    unfolding draw_block_def by (simp only: if_False simp_thms pass_stmt_appends(2))
qed

lemma emitted_run:
  assumes "precondition r"
  shows "emitted pg d r =
     fst (block_out (market_blocks (league_of r) d (team_names r ! 0) (team_names r ! 1) (period_of pg r) r))"
  and "raised pg d r =
     snd (block_out (market_blocks (league_of r) d (team_names r ! 0) (team_names r ! 1) (period_of pg r) r))"
  unfolding emitted_def raised_def row_body_run[OF assms] by simp_all

lemma emitted_full_moneyline:
  assumes "precondition r" "3 \<le> length (moneyline_prices r)" "3 \<le> length (spread_prices r)"
  shows "\<exists>rest. emitted pg d r = moneyline_records pg d r @ draw_records pg d r @ rest"
proof -
  define lg where "lg = league_of r"
  define t1 where "t1 = team_names r ! 0"
  define t2 where "t2 = team_names r ! 1"
  define per where "per = period_of pg r"
  define tail where "tail = run_seq (spread_block lg d t1 t2 per r) (over_under_block lg d t1 t2 per r)"
  have tl: "appends tail"
    unfolding tail_def by (intro run_seq_appends spread_block_appends over_under_block_appends)
  have dt: "appends (run_seq (draw_block lg d t1 t2 per r) tail)"
    using draw_block_appends tl by (rule run_seq_appends)
  have m: "snd (block_out (moneyline_block lg d t1 t2 per r)) = None"
    using moneyline_block_full[OF assms(2,3)] by simp
  have dr: "snd (block_out (draw_block lg d t1 t2 per r)) = None"
    by (simp add: draw_block_out)
  have "block_out (market_blocks lg d t1 t2 per r) =
      (fst (block_out (moneyline_block lg d t1 t2 per r))
         @ fst (block_out (run_seq (draw_block lg d t1 t2 per r) tail)),
       snd (block_out (run_seq (draw_block lg d t1 t2 per r) tail)))"
    unfolding market_blocks_def tail_def[symmetric]
    using run_seq_out[OF moneyline_block_appends dt, of lg d t1 t2 per r] m by simp
  moreover have "block_out (run_seq (draw_block lg d t1 t2 per r) tail) =
      (fst (block_out (draw_block lg d t1 t2 per r)) @ fst (block_out tail), snd (block_out tail))"
    using run_seq_out[OF draw_block_appends tl, of lg d t1 t2 per r] dr by simp
  ultimately have "fst (block_out (market_blocks lg d t1 t2 per r)) =
      fst (block_out (moneyline_block lg d t1 t2 per r))
        @ fst (block_out (draw_block lg d t1 t2 per r)) @ fst (block_out tail)"
    by simp
  then show ?thesis
    unfolding emitted_run(1)[OF assms(1)] moneyline_records_def draw_records_def
      lg_def t1_def t2_def per_def
    by blast
qed

lemma row_body_appends:
  assumes "precondition r"
  shows "row_body pg d r st = (st\<lparr>items := items st @ emitted pg d r\<rparr>, raised pg d r)"
  unfolding emitted_run[OF assms] row_body_run[OF assms]
  by (rule appendsD[OF market_blocks_appends])

lemma emitted_no_spread:
  assumes "precondition r" "length (spread_prices r) < 2"
  shows "emitted pg d r = []"
proof -
  define lg where "lg = league_of r"
  define t1 where "t1 = team_names r ! 0"
  define t2 where "t2 = team_names r ! 1"
  define per where "per = period_of pg r"
  define tail where "tail = run_seq (draw_block lg d t1 t2 per r)
      (run_seq (spread_block lg d t1 t2 per r) (over_under_block lg d t1 t2 per r))"
  have tl: "appends tail"
    unfolding tail_def
    by (intro run_seq_appends draw_block_appends spread_block_appends over_under_block_appends)
  have g: "2 \<le> length (moneyline_prices r)"
    using assms(1) by (simp add: precondition_def)
  have "\<not> (1 < length (moneyline_prices r) \<and> 1 < length (spread_prices r))"
    using assms(2) by simp
  then have li: "line_item lg d t1 t2 per ''moneyline'' (moneyline_prices r) 1 t1 t1 (spread_prices r)
      = Inl IndexError"
    by (rule line_item_fail)
  have "block_out (moneyline_block lg d t1 t2 per r) = ([], Some IndexError)"
    unfolding moneyline_block_def
    by (simp only: g if_True li run_seq_out[OF items_append_Inl(1) items_append_appends]
          items_append_Inl(2)) simp
  then have "block_out (market_blocks lg d t1 t2 per r) = ([], Some IndexError)"
    unfolding market_blocks_def tail_def[symmetric]
    using run_seq_out[OF moneyline_block_appends tl, of lg d t1 t2 per r] by simp
  then show ?thesis
    unfolding emitted_run(1)[OF assms(1)] lg_def t1_def t2_def per_def by simp
qed


subsection \<open>Rows that fail the precondition\<close>

text \<open>
  Claim C8. A row with fewer than 2 team-name elements or fewer than 2 moneyline-price
  elements logs the warning, appends no record and raises nothing, and the loop goes on
  with the next row: the list returned for the rows \<open>r # rs\<close> is the list of the rows \<open>rs\<close>.
\<close>

theorem short_row_skipped:
  "length (team_names r) < 2 \<or> length (moneyline_prices r) < 2 \<Longrightarrow>
     row_body pg d r st = (log_warning MissingDataInRow st, None)
     \<and> parse_row pg d r st = log_warning MissingDataInRow st
     \<and> emitted pg d r = [] \<and> raised pg d r = None
     \<and> parse_rows pg d (r # rs) st = parse_rows pg d rs (log_warning MissingDataInRow st)
     \<and> items (parse_rows pg d (r # rs) st) = items st @ concat (map (emitted pg d) rs)"
proof -
  assume "length (team_names r) < 2 \<or> length (moneyline_prices r) < 2"
  then have np: "\<not> precondition r" by (simp add: precondition_def)
  have rb: "row_body pg d r st = (log_warning MissingDataInRow st, None)"
    using np by (rule row_body_skip)
  have pr: "parse_row pg d r st = log_warning MissingDataInRow st"
    by (simp add: parse_row_def rb)
  have em: "emitted pg d r = []" using np by (rule emitted_skip)
  have ra: "raised pg d r = None" using np by (rule raised_skip)
  have lp: "parse_rows pg d (r # rs) st = parse_rows pg d rs (log_warning MissingDataInRow st)"
    by (simp add: pr)
  have it: "items (parse_rows pg d (r # rs) st) = items st @ concat (map (emitted pg d) rs)"
    by (simp add: parse_rows_items parse_row_items em)
  from rb pr em ra lp it show ?thesis by (intro conjI)
qed

theorem short_row_skipped_witness:
  "length (team_names row_one_team_soccer) < 2
   \<and> parse_row page_one_team_soccer sample_date row_one_team_soccer init_state
       = \<lparr>cached_event_date = None, items = [], warnings = [MissingDataInRow]\<rparr>
   \<and> parse_rows page_one_team_soccer sample_date [row_one_team_soccer, row_soccer] init_state
       = parse_rows page_one_team_soccer sample_date [row_soccer]
           \<lparr>cached_event_date = None, items = [], warnings = [MissingDataInRow]\<rparr>"
proof -
  have h: "length (team_names row_one_team_soccer) < 2"
    by (simp add: row_one_team_soccer_def)
  then have h': "length (team_names row_one_team_soccer) < 2
      \<or> length (moneyline_prices row_one_team_soccer) < 2" ..
  have lw: "log_warning MissingDataInRow init_state
      = \<lparr>cached_event_date = None, items = [], warnings = [MissingDataInRow]\<rparr>"
    by (simp add: log_warning_def init_state_def)
  from short_row_skipped[OF h', of page_one_team_soccer sample_date init_state "[row_soccer]"] h lw
  show ?thesis by simp
qed


subsection \<open>Rows whose processing raises\<close>

text \<open>
  Claim C1, as amended. When the processing of a row raises, the row had passed the
  precondition check, the exception is caught and logged as a warning, and the loop goes
  on with the next row. The records the row appended before the exception stay in the
  returned list; the row contributes no record when the exception comes before its first
  append, as it does when the spread column has fewer than 2 entries.
\<close>

theorem row_exception_keeps_appended:
  "raised pg d r = Some e \<Longrightarrow>
     precondition r
     \<and> row_body pg d r st = (st\<lparr>items := items st @ emitted pg d r\<rparr>, Some e)
     \<and> parse_row pg d r st
         = log_warning (ErrorParsingRow e) (st\<lparr>items := items st @ emitted pg d r\<rparr>)
     \<and> parse_rows pg d (r # rs) st
         = parse_rows pg d rs
             (log_warning (ErrorParsingRow e) (st\<lparr>items := items st @ emitted pg d r\<rparr>))
     \<and> items (parse_rows pg d (r # rs) st)
         = items st @ emitted pg d r @ concat (map (emitted pg d) rs)
     \<and> (length (spread_prices r) < 2 \<longrightarrow> emitted pg d r = [])"
proof -
  assume ra: "raised pg d r = Some e"
  have pre: "precondition r"
  proof (rule ccontr)
    assume "\<not> precondition r"
    then have "raised pg d r = None" by (rule raised_skip)
    with ra show False by simp
  qed
  have rb: "row_body pg d r st = (st\<lparr>items := items st @ emitted pg d r\<rparr>, Some e)"
    using row_body_appends[OF pre, of pg d st] ra by simp
  have pr: "parse_row pg d r st
         = log_warning (ErrorParsingRow e) (st\<lparr>items := items st @ emitted pg d r\<rparr>)"
    by (simp add: parse_row_def rb)
  have lp: "parse_rows pg d (r # rs) st
         = parse_rows pg d rs
             (log_warning (ErrorParsingRow e) (st\<lparr>items := items st @ emitted pg d r\<rparr>))"
    by (simp add: pr)
  have it: "items (parse_rows pg d (r # rs) st)
         = items st @ emitted pg d r @ concat (map (emitted pg d) rs)"
    by (simp add: parse_rows_items parse_row_items)
  have ns: "length (spread_prices r) < 2 \<longrightarrow> emitted pg d r = []"
    using emitted_no_spread[OF pre] by blast
  from pre rb pr lp it ns show ?thesis by (intro conjI)
qed


theorem row_exception_keeps_appended_witness:
  "raised page_short_moneyline sample_date row_short_moneyline = Some IndexError
   \<and> precondition row_short_moneyline
   \<and> items (parse_rows page_short_moneyline sample_date [row_short_moneyline, row_no_spread] init_state)
       = emitted page_short_moneyline sample_date row_short_moneyline
   \<and> length (emitted page_short_moneyline sample_date row_short_moneyline) = 1
   \<and> raised page_short_moneyline sample_date row_no_spread = Some IndexError
   \<and> length (spread_prices row_no_spread) < 2
   \<and> emitted page_short_moneyline sample_date row_no_spread = []"
proof -
  have r1: "raised page_short_moneyline sample_date row_short_moneyline = Some IndexError"
    by code_simp
  have r2: "raised page_short_moneyline sample_date row_no_spread = Some IndexError"
    by code_simp
  have l1: "length (emitted page_short_moneyline sample_date row_short_moneyline) = 1"
    by code_simp
  have l2: "length (spread_prices row_no_spread) < 2"
    by (simp add: row_no_spread_def)
  have i0: "items init_state = []" by (simp add: init_state_def)
  from row_exception_keeps_appended[OF r2, of init_state "[]"] l2
  have e2: "emitted page_short_moneyline sample_date row_no_spread = []" by blast
  from row_exception_keeps_appended[OF r1, of init_state "[row_no_spread]"]
  have "precondition row_short_moneyline"
    and "items (parse_rows page_short_moneyline sample_date [row_short_moneyline, row_no_spread] init_state)
       = items init_state @ emitted page_short_moneyline sample_date row_short_moneyline
           @ concat (map (emitted page_short_moneyline sample_date) [row_no_spread])"
    by blast+
  with r1 r2 l1 l2 e2 i0 show ?thesis by simp
qed

text \<open>
  Claim C1 as stated fails: the sample row passes the precondition check, its processing
  raises \<^verbatim>\<open>IndexError\<close> at \<^verbatim>\<open>moneyline_prices[2]\<close>, and the record appended before that is in the
  list the cycle returns.
\<close>

theorem row_exception_leaves_record:
  "precondition row_short_moneyline
   \<and> raised page_short_moneyline sample_date row_short_moneyline = Some IndexError
   \<and> emitted page_short_moneyline sample_date row_short_moneyline
       = [\<lparr>sport_league = ''NFL'', event_date_utc = sample_date,
           team1 = ''Lions'', team2 = ''Bears'', period = ''FULL GAME'', line_type = ''moneyline'',
           price = ''-150'', side = ''Lions'', team = ''Lions'', spread = - (7 / 2), pitcher = []\<rparr>]
   \<and> parse_game_data page_short_moneyline init_state
       = (Inr [\<lparr>sport_league = ''NFL'', event_date_utc = sample_date,
           team1 = ''Lions'', team2 = ''Bears'', period = ''FULL GAME'', line_type = ''moneyline'',
           price = ''-150'', side = ''Lions'', team = ''Lions'', spread = - (7 / 2), pitcher = []\<rparr>],
          \<lparr>cached_event_date = Some sample_date,
           items = [\<lparr>sport_league = ''NFL'', event_date_utc = sample_date,
             team1 = ''Lions'', team2 = ''Bears'', period = ''FULL GAME'', line_type = ''moneyline'',
             price = ''-150'', side = ''Lions'', team = ''Lions'', spread = - (7 / 2), pitcher = []\<rparr>],
           warnings = [ErrorParsingRow IndexError]\<rparr>)"
  by code_simp


subsection \<open>Record counts of the market steps\<close>

text \<open>
  Where every column that is read has its entries 1 and 2, the counts are the expected
  ones: the row ends without an exception and its records are 2 moneyline records, the
  draw record if any, 2 spread records, and 2 over/under records or none.
\<close>

lemma spread_block_full:
  assumes "3 \<le> length (spread_prices r)"
  shows "block_out (spread_block lg d t1 t2 per r) =
     ([\<lparr>sport_league = lg, event_date_utc = d, team1 = t1, team2 = t2, period = per,
         line_type = ''spread'', price = extract_price (spread_prices r ! 1), side = t1,
         team = t1, spread = spread_value (spread_prices r ! 1), pitcher = []\<rparr>,
       \<lparr>sport_league = lg, event_date_utc = d, team1 = t1, team2 = t2, period = per,
         line_type = ''spread'', price = extract_price (spread_prices r ! 2), side = t2,
         team = t2, spread = spread_value (spread_prices r ! 2), pitcher = []\<rparr>], None)"
proof -
  have 1: "1 < length (spread_prices r)" and 2: "2 < length (spread_prices r)"
    and g: "2 \<le> length (spread_prices r)"
    using assms by simp_all
  show ?thesis
    unfolding spread_block_def
    by (simp only: g if_True line_item_ok[OF 1 1] line_item_ok[OF 2 2]
          run_seq_out[OF items_append_Inr(1) items_append_Inr(1)] items_append_Inr(2))
       simp
qed

lemma over_under_block_full:
  assumes "3 \<le> length (total_prices r)" "3 \<le> length (spread_prices r)"
  shows "block_out (over_under_block lg d t1 t2 per r) =
     ([\<lparr>sport_league = lg, event_date_utc = d, team1 = t1, team2 = t2, period = per,
         line_type = ''over/under'', price = extract_price (total_prices r ! 1), side = ''over'',
         team = ''total'', spread = spread_value (spread_prices r ! 1), pitcher = []\<rparr>,
       \<lparr>sport_league = lg, event_date_utc = d, team1 = t1, team2 = t2, period = per,
         line_type = ''over/under'', price = extract_price (total_prices r ! 2), side = ''under'',
         team = ''total'', spread = spread_value (spread_prices r ! 2), pitcher = []\<rparr>], None)"
proof -
  have 1: "1 < length (total_prices r)" "1 < length (spread_prices r)"
    and 2: "2 < length (total_prices r)" "2 < length (spread_prices r)"
    and g: "2 \<le> length (total_prices r)"
    using assms by simp_all
  show ?thesis
    unfolding over_under_block_def
    by (simp only: g if_True line_item_ok[OF 1] line_item_ok[OF 2]
          run_seq_out[OF items_append_Inr(1) items_append_Inr(1)] items_append_Inr(2))
       simp
qed

lemma over_under_block_none:
  assumes "length (total_prices r) < 2"
  shows "block_out (over_under_block lg d t1 t2 per r) = ([], None)"
proof -
  have g: "\<not> 2 \<le> length (total_prices r)" using assms by simp
  show ?thesis
    unfolding over_under_block_def by (simp only: g if_False pass_stmt_appends(2))
qed

lemma full_row_counts:
  assumes "precondition r" "3 \<le> length (moneyline_prices r)" "3 \<le> length (spread_prices r)"
    and "length (total_prices r) < 2 \<or> 3 \<le> length (total_prices r)"
  shows "raised pg d r = None
     \<and> emitted pg d r = moneyline_records pg d r @ draw_records pg d r
                          @ spread_records pg d r @ over_under_records pg d r
     \<and> length (moneyline_records pg d r) = 2
     \<and> length (spread_records pg d r) = 2
     \<and> length (over_under_records pg d r) = (if 2 \<le> length (total_prices r) then 2 else 0)"
proof -
  define lg where "lg = league_of r"
  define t1 where "t1 = team_names r ! 0"
  define t2 where "t2 = team_names r ! 1"
  define per where "per = period_of pg r"
  define ou where "ou = over_under_block lg d t1 t2 per r"
  define sp where "sp = spread_block lg d t1 t2 per r"
  define dr where "dr = draw_block lg d t1 t2 per r"
  define ml where "ml = moneyline_block lg d t1 t2 per r"
  have a: "appends ou" "appends sp" "appends dr" "appends ml"
    unfolding ou_def sp_def dr_def ml_def
    by (rule over_under_block_appends spread_block_appends draw_block_appends
          moneyline_block_appends)+
  have eml: "snd (block_out ml) = None" and lml: "length (fst (block_out ml)) = 2"
    unfolding ml_def using moneyline_block_full[OF assms(2,3)] by simp_all
  have edr: "snd (block_out dr) = None"
    unfolding dr_def by (simp add: draw_block_out)
  have esp: "snd (block_out sp) = None" and lsp: "length (fst (block_out sp)) = 2"
    unfolding sp_def using spread_block_full[OF assms(3)] by simp_all
  have eou: "snd (block_out ou) = None"
    and lou: "length (fst (block_out ou)) = (if 2 \<le> length (total_prices r) then 2 else 0)"
    unfolding ou_def
    using assms(4) over_under_block_full[OF _ assms(3)] over_under_block_none
    by auto
  have s1: "block_out (run_seq sp ou) = (fst (block_out sp) @ fst (block_out ou), None)"
    using run_seq_out[OF a(2) a(1)] esp eou by simp
  have a1: "appends (run_seq sp ou)" using a(2) a(1) by (rule run_seq_appends)
  have s2: "block_out (run_seq dr (run_seq sp ou)) =
      (fst (block_out dr) @ fst (block_out sp) @ fst (block_out ou), None)"
    using run_seq_out[OF a(3) a1] edr s1 by simp
  have a2: "appends (run_seq dr (run_seq sp ou))" using a(3) a1 by (rule run_seq_appends)
  have s3: "block_out (run_seq ml (run_seq dr (run_seq sp ou))) =
      (fst (block_out ml) @ fst (block_out dr) @ fst (block_out sp) @ fst (block_out ou), None)"
    using run_seq_out[OF a(4) a2] eml s2 by simp
  have mb: "market_blocks lg d t1 t2 per r = run_seq ml (run_seq dr (run_seq sp ou))"
    unfolding market_blocks_def ml_def dr_def sp_def ou_def ..
  have em: "emitted pg d r = fst (block_out ml) @ fst (block_out dr) @ fst (block_out sp) @ fst (block_out ou)"
    and ra: "raised pg d r = None"
    unfolding emitted_run[OF assms(1)] lg_def[symmetric] t1_def[symmetric] t2_def[symmetric]
      per_def[symmetric] mb s3
    by simp_all
  have names: "moneyline_records pg d r = fst (block_out ml)"
    "draw_records pg d r = fst (block_out dr)"
    "spread_records pg d r = fst (block_out sp)"
    "over_under_records pg d r = fst (block_out ou)"
    unfolding moneyline_records_def draw_records_def spread_records_def over_under_records_def
      ml_def dr_def sp_def ou_def lg_def t1_def t2_def per_def
    by (rule refl)+
  show ?thesis
    unfolding names using ra em lml lsp lou by simp
qed

text \<open>
  Claim C2 says that a row that passes the precondition check gets exactly 2 moneyline
  records, and exactly 2 over/under records when at least 2 total entries exist. The steps
  are guarded by \<^verbatim>\<open>len(...) >= 2\<close> but read the entries 1 and 2, and the moneyline step reads
  the spread column without a guard. On the sample rows, which pass the precondition
  check: 2 moneyline entries give 1 moneyline record; an empty spread column gives no
  moneyline record; 2 total entries give 1 over/under record, and the row ends with
  \<^verbatim>\<open>IndexError\<close>.
\<close>

theorem short_columns_lose_records:
  "precondition row_short_moneyline
   \<and> length (moneyline_records page_short_moneyline sample_date row_short_moneyline) = 1
   \<and> precondition row_no_spread
   \<and> length (moneyline_records page_short_moneyline sample_date row_no_spread) = 0
   \<and> precondition row_short_totals \<and> 2 \<le> length (total_prices row_short_totals)
   \<and> length (over_under_records page_short_moneyline sample_date row_short_totals) = 1
   \<and> raised page_short_moneyline sample_date row_short_totals = Some IndexError"
  by code_simp


subsection \<open>The draw record\<close>

text \<open>
  Claim C9, as amended. The draw step appends a record exactly when the league
  identifier contains \<^verbatim>\<open>SOCCER\<close> and a 4th moneyline entry exists; the record has side and team
  \<^verbatim>\<open>draw\<close>, spread \<open>0.0\<close>, and as price the 4th moneyline text with the marker removed and
  trimmed; for a league without \<^verbatim>\<open>SOCCER\<close> the step appends nothing. In a row that passes the
  precondition check and has at least 3 moneyline and 3 spread entries, the records of the
  row are the two moneyline records, then those of the draw step, then the rest. A row
  that fails the precondition check has no record at all.
\<close>

theorem draw_record_when_reached:
  "(draw_records pg d r \<noteq> [] \<longleftrightarrow>
      py_in ''SOCCER'' (league_of r) \<and> 4 \<le> length (moneyline_prices r))
   \<and> (py_in ''SOCCER'' (league_of r) \<and> 4 \<le> length (moneyline_prices r) \<longrightarrow>
        (\<exists>x. draw_records pg d r = [x] \<and> side x = ''draw'' \<and> team x = ''draw'' \<and> spread x = 0
           \<and> price x = py_strip (py_replace (moneyline_prices r ! 3) draw_marker [])))
   \<and> (\<not> py_in ''SOCCER'' (league_of r) \<longrightarrow> draw_records pg d r = [])
   \<and> (precondition r \<and> 3 \<le> length (moneyline_prices r) \<and> 3 \<le> length (spread_prices r) \<longrightarrow>
        length (moneyline_records pg d r) = 2
        \<and> (\<exists>rest. emitted pg d r = moneyline_records pg d r @ draw_records pg d r @ rest))
   \<and> (\<not> precondition r \<longrightarrow> emitted pg d r = [])"
proof (intro conjI impI)
  show "draw_records pg d r \<noteq> [] \<longleftrightarrow>
      py_in ''SOCCER'' (league_of r) \<and> 4 \<le> length (moneyline_prices r)"
    by (simp add: draw_records_def draw_block_out)
next
  assume "py_in ''SOCCER'' (league_of r) \<and> 4 \<le> length (moneyline_prices r)"
  then show "\<exists>x. draw_records pg d r = [x] \<and> side x = ''draw'' \<and> team x = ''draw'' \<and> spread x = 0
           \<and> price x = py_strip (py_replace (moneyline_prices r ! 3) draw_marker [])"
    by (simp add: draw_records_def draw_block_out)
next
  assume "\<not> py_in ''SOCCER'' (league_of r)"
  then show "draw_records pg d r = []"
    by (simp add: draw_records_def draw_block_out)
next
  assume a: "precondition r \<and> 3 \<le> length (moneyline_prices r) \<and> 3 \<le> length (spread_prices r)"
  then show "length (moneyline_records pg d r) = 2"
    by (simp add: moneyline_records_def moneyline_block_full)
  from a show "\<exists>rest. emitted pg d r = moneyline_records pg d r @ draw_records pg d r @ rest"
    by (simp add: emitted_full_moneyline)
next
  assume "\<not> precondition r"
  then show "emitted pg d r = []" by (rule emitted_skip)
qed

theorem draw_record_when_reached_witness:
  "precondition row_soccer \<and> 3 \<le> length (moneyline_prices row_soccer)
   \<and> 3 \<le> length (spread_prices row_soccer)
   \<and> py_in ''SOCCER'' (league_of row_soccer) \<and> 4 \<le> length (moneyline_prices row_soccer)
   \<and> map side (draw_records page_one_team_soccer sample_date row_soccer) = [''draw'']
   \<and> map price (draw_records page_one_team_soccer sample_date row_soccer) = [''(+250)'']
   \<and> take 3 (emitted page_one_team_soccer sample_date row_soccer)
       = moneyline_records page_one_team_soccer sample_date row_soccer
           @ draw_records page_one_team_soccer sample_date row_soccer
   \<and> \<not> py_in ''SOCCER'' (league_of row_short_totals)
   \<and> draw_records page_one_team_soccer sample_date row_short_totals = []
   \<and> \<not> precondition row_one_team_soccer
   \<and> emitted page_one_team_soccer sample_date row_one_team_soccer = []"
proof -
  have h1: "precondition row_soccer \<and> 3 \<le> length (moneyline_prices row_soccer)
      \<and> 3 \<le> length (spread_prices row_soccer)"
    by code_simp
  have h2: "py_in ''SOCCER'' (league_of row_soccer) \<and> 4 \<le> length (moneyline_prices row_soccer)"
    by code_simp
  have h3: "\<not> py_in ''SOCCER'' (league_of row_short_totals)"
    by code_simp
  have h4: "\<not> precondition row_one_team_soccer"
    by code_simp
  have p: "py_strip (py_replace (moneyline_prices row_soccer ! 3) draw_marker []) = ''(+250)''"
    by code_simp
  note t = draw_record_when_reached[of page_one_team_soccer sample_date]
  from t[of row_soccer] h2 obtain x where
    x: "draw_records page_one_team_soccer sample_date row_soccer = [x]" "side x = ''draw''"
       "price x = py_strip (py_replace (moneyline_prices row_soccer ! 3) draw_marker [])"
    by blast
  from t[of row_soccer] h1 obtain rest where
    l: "length (moneyline_records page_one_team_soccer sample_date row_soccer) = 2"
    and e: "emitted page_one_team_soccer sample_date row_soccer
       = moneyline_records page_one_team_soccer sample_date row_soccer
           @ draw_records page_one_team_soccer sample_date row_soccer @ rest"
    by blast
  from l e x(1) have tk: "take 3 (emitted page_one_team_soccer sample_date row_soccer)
       = moneyline_records page_one_team_soccer sample_date row_soccer
           @ draw_records page_one_team_soccer sample_date row_soccer"
    by simp
  from t[of row_short_totals] h3
  have d0: "draw_records page_one_team_soccer sample_date row_short_totals = []" by blast
  from t[of row_one_team_soccer] h4
  have e0: "emitted page_one_team_soccer sample_date row_one_team_soccer = []" by blast
  from h1 h2 h3 h4 x p tk d0 e0 show ?thesis by simp
qed

text \<open>
  Claim C9 as stated fails: the sample row has a soccer league and 4 moneyline entries,
  and no record is emitted for it, because it has one team name only.
\<close>

theorem soccer_row_without_draw:
  "py_in ''SOCCER'' (league_of row_one_team_soccer)
   \<and> 4 \<le> length (moneyline_prices row_one_team_soccer)
   \<and> emitted page_one_team_soccer sample_date row_one_team_soccer = []
   \<and> fst (parse_game_data page_one_team_soccer init_state) = Inr []"
  by code_simp

subsection \<open>The period of a row\<close>

text \<open>
  Claim C3 says that the period of a row's records is the trimmed text of the row's own
  badge. The code looks the row's badge up and then overwrites it with the first badge of
  the whole document whose text contains \<^verbatim>\<open>FINAL\<close>. On the sample page the first row has the
  badge \<^verbatim>\<open>1ST HALF\<close> and the second the badge \<^verbatim>\<open>FINAL\<close>: every record of the first row has the
  period \<^verbatim>\<open>FINAL\<close>. On a page without a \<^verbatim>\<open>FINAL\<close> badge the same row, badge and all, gets
  \<^verbatim>\<open>FULL GAME\<close>.
\<close>

theorem period_taken_from_document:
  "row_badge row_first_half = Some ''1ST HALF''
   \<and> map period (emitted page_two_badges sample_date row_first_half)
       = [''FINAL'', ''FINAL'', ''FINAL'', ''FINAL'']
   \<and> (case parse_game_data page_two_badges init_state of
         (out, st) \<Rightarrow> map_sum id (map period) out)
       = Inr [''FINAL'', ''FINAL'', ''FINAL'', ''FINAL'', ''FINAL'', ''FINAL'', ''FINAL'', ''FINAL'']
   \<and> map period (emitted page_first_half_only sample_date row_first_half)
       = [''FULL GAME'', ''FULL GAME'', ''FULL GAME'', ''FULL GAME'']"
  by code_simp


subsection \<open>The league identifier\<close>

lemma startswith_iff: "startswith s p \<longleftrightarrow> (\<exists>r. s = p @ r)"
  by (induction s p rule: startswith.induct) auto

lemma startswith_drop: "startswith s p \<Longrightarrow> s = p @ drop (length p) s"
  by (auto simp: startswith_iff)

lemma py_in_iff: "py_in p s \<longleftrightarrow> (\<exists>a b. s = a @ p @ b)"
proof (induction s)
  case Nil
  then show ?case by auto
next
  case (Cons c cs)
  show ?case
  proof
    assume "py_in p (c # cs)"
    then consider "startswith (c # cs) p" | "py_in p cs" by auto
    then show "\<exists>a b. c # cs = a @ p @ b"
    proof cases
      case 1
      then obtain r where "c # cs = p @ r" by (auto simp: startswith_iff)
      then have "c # cs = [] @ p @ r" by simp
      then show ?thesis by blast
    next
      case 2
      with Cons.IH obtain a b where "cs = a @ p @ b" by blast
      then have "c # cs = (c # a) @ p @ b" by simp
      then show ?thesis by blast
    qed
  next
    assume "\<exists>a b. c # cs = a @ p @ b"
    then obtain a b where ab: "c # cs = a @ p @ b" by blast
    show "py_in p (c # cs)"
    proof (cases a)
      case Nil
      with ab have "startswith (c # cs) p" by (auto simp: startswith_iff)
      then show ?thesis by simp
    next
      case (Cons x a')
      with ab have "cs = a' @ p @ b" by simp
      with Cons.IH have "py_in p cs" by blast
      then show ?thesis by simp
    qed
  qed
qed

lemma split_from_nonempty: "split_from sep cur s \<noteq> []"
  by (induction sep cur s rule: split_from.induct) auto

lemma split_from_no_sep:
  "sep \<noteq> [] \<Longrightarrow> \<not> py_in sep s \<Longrightarrow> split_from sep cur s = [cur @ s]"
  by (induction s arbitrary: cur) auto

lemma split_from_last:
  assumes "sep \<noteq> []"
  shows "\<exists>pre suf. s = pre @ suf \<and> \<not> py_in sep suf \<and> (pre = [] \<or> (\<exists>p. pre = p @ sep))
           \<and> last (split_from sep cur s) = (if pre = [] then cur @ suf else suf)"
  using assms
proof (induction sep cur s rule: split_from.induct)
  case (1 sep cur)
  then show ?case
    by (intro exI[of _ "[]"]) simp
next
  case (2 sep cur c cs)
  show ?case
  proof (cases "startswith (c # cs) sep")
    case True
    from "2.IH"(1)[OF True "2.prems"] obtain pre suf where
      h: "drop (length sep - 1) cs = pre @ suf" "\<not> py_in sep suf"
         "pre = [] \<or> (\<exists>p. pre = p @ sep)"
         "last (split_from sep [] (drop (length sep - 1) cs)) = (if pre = [] then [] @ suf else suf)"
      by blast
    have d: "drop (length sep - 1) cs = drop (length sep) (c # cs)"
      using "2.prems" by (cases sep) auto
    have whole: "c # cs = (sep @ pre) @ suf"
      using startswith_drop[OF True] h(1) d by simp
    have ne: "sep @ pre \<noteq> []" using "2.prems" by simp
    obtain p where ends: "sep @ pre = p @ sep"
    proof (cases "pre = []")
      case True
      then have "sep @ pre = [] @ sep" by simp
      then show thesis by (rule that)
    next
      case False
      with h(3) obtain p' where "pre = p' @ sep" by blast
      then have "sep @ pre = (sep @ p') @ sep" by simp
      then show thesis by (rule that)
    qed
    have l: "last (split_from sep cur (c # cs)) = suf"
      using True h(4) split_from_nonempty[of sep "[]" "drop (length sep - 1) cs"] by simp
    show ?thesis
    proof (rule exI[of _ "sep @ pre"], rule exI[of _ suf], intro conjI)
      show "c # cs = (sep @ pre) @ suf" by (rule whole)
      show "\<not> py_in sep suf" by (rule h(2))
      show "sep @ pre = [] \<or> (\<exists>p. sep @ pre = p @ sep)" using ends by blast
      show "last (split_from sep cur (c # cs)) = (if sep @ pre = [] then cur @ suf else suf)"
        unfolding l using "2.prems" by simp
    qed
  next
    case False
    from "2.IH"(2)[OF False "2.prems"] obtain pre suf where
      h: "cs = pre @ suf" "\<not> py_in sep suf"
         "pre = [] \<or> (\<exists>p. pre = p @ sep)"
         "last (split_from sep (cur @ [c]) cs) = (if pre = [] then (cur @ [c]) @ suf else suf)"
      by blast
    show ?thesis
    proof (cases "pre = []")
      case True
      show ?thesis
      proof (rule exI[of _ "[]"], rule exI[of _ "c # cs"], intro conjI)
        show "c # cs = [] @ c # cs" by simp
        show "\<not> py_in sep (c # cs)" using h(1,2) True False by simp
        show "[] = [] \<or> (\<exists>p. [] = p @ sep)" by simp
        have "last (split_from sep cur (c # cs)) = cur @ c # cs"
          using h(1,4) True False by simp
        then show "last (split_from sep cur (c # cs)) = (if [] = [] then cur @ c # cs else c # cs)"
          by (simp only: if_True simp_thms)
      qed
    next
      case np: False
      with h(3) obtain p where p: "pre = p @ sep" by blast
      show ?thesis
      proof (rule exI[of _ "c # pre"], rule exI[of _ suf], intro conjI)
        show "c # cs = (c # pre) @ suf" using h(1) by simp
        show "\<not> py_in sep suf" by (rule h(2))
        have "c # pre = (c # p) @ sep" using p by simp
        then show "c # pre = [] \<or> (\<exists>p. c # pre = p @ sep)" by blast
        have "last (split_from sep cur (c # cs)) = suf"
          using False h(4) np by simp
        then show "last (split_from sep cur (c # cs)) = (if c # pre = [] then cur @ suf else suf)"
          by (simp only: list.distinct if_False)
      qed
    qed
  qed
qed

text \<open>
  Claim C10, as amended. Without the league link the identifier is \<^verbatim>\<open>UNKNOWN\<close>. With the
  link, and an \<^verbatim>\<open>href\<close> that contains no \<^verbatim>\<open>f=\<close>, it is the whole \<^verbatim>\<open>href\<close> in upper case. With the
  link it is in general the upper-cased text that follows the last \<^verbatim>\<open>f=\<close> of the \<^verbatim>\<open>href\<close>, so
  it is \<^verbatim>\<open>UNKNOWN\<close> only when that text itself reads so in upper case.
\<close>

theorem league_from_link:
  "(sport_elem r = None \<longrightarrow> league_of r = ''UNKNOWN'')
   \<and> (\<forall>h. sport_elem r = Some h \<and> \<not> py_in ''f='' h \<longrightarrow> league_of r = py_upper h)
   \<and> (\<forall>h. sport_elem r = Some h \<longrightarrow>
        (\<exists>pre suf. h = pre @ suf \<and> \<not> py_in ''f='' suf \<and> (pre = [] \<or> (\<exists>p. pre = p @ ''f=''))
           \<and> league_of r = py_upper suf))"
proof (intro conjI allI impI)
  assume "sport_elem r = None"
  then show "league_of r = ''UNKNOWN''" by (simp add: league_of_def)
next
  fix h assume "sport_elem r = Some h \<and> \<not> py_in ''f='' h"
  then show "league_of r = py_upper h"
    by (simp add: league_of_def py_split_def split_from_no_sep)
next
  fix h assume h: "sport_elem r = Some h"
  have "''f='' \<noteq> []" by simp
  from split_from_last[OF this, of h "[]"] obtain pre suf where
    "h = pre @ suf" "\<not> py_in ''f='' suf" "pre = [] \<or> (\<exists>p. pre = p @ ''f='')"
    "last (split_from ''f='' [] h) = (if pre = [] then [] @ suf else suf)"
    by blast
  moreover from this(4) have "league_of r = py_upper suf"
    using h by (simp add: league_of_def py_split_def)
  ultimately show "\<exists>pre suf. h = pre @ suf \<and> \<not> py_in ''f='' suf
      \<and> (pre = [] \<or> (\<exists>p. pre = p @ ''f='')) \<and> league_of r = py_upper suf"
    by blast
qed

theorem league_from_link_witness:
  "sport_elem row_no_spread = Some ''https://veri.bet/betting-trends?f=nfl''
   \<and> league_of row_no_spread = ''NFL''
   \<and> sport_elem row_no_separator = Some ''https://veri.bet/nba''
   \<and> \<not> py_in ''f='' ''https://veri.bet/nba''
   \<and> league_of row_no_separator = ''HTTPS://VERI.BET/NBA''
   \<and> sport_elem (row_no_separator\<lparr>sport_elem := None\<rparr>) = None
   \<and> league_of (row_no_separator\<lparr>sport_elem := None\<rparr>) = ''UNKNOWN''"
proof -
  have a: "sport_elem row_no_separator = Some ''https://veri.bet/nba''"
    by (simp add: row_no_separator_def)
  have b: "\<not> py_in ''f='' ''https://veri.bet/nba''"
    by code_simp
  have u: "py_upper ''https://veri.bet/nba'' = ''HTTPS://VERI.BET/NBA''"
    by code_simp
  have c: "sport_elem (row_no_separator\<lparr>sport_elem := None\<rparr>) = None"
    by simp
  have d: "sport_elem row_no_spread = Some ''https://veri.bet/betting-trends?f=nfl''"
    by (simp add: row_no_spread_def)
  from league_from_link[of row_no_separator] a b
  have 1: "league_of row_no_separator = py_upper ''https://veri.bet/nba''" by blast
  from league_from_link[of "row_no_separator\<lparr>sport_elem := None\<rparr>"] c
  have 2: "league_of (row_no_separator\<lparr>sport_elem := None\<rparr>) = ''UNKNOWN''" by blast
  have 3: "league_of row_no_spread = ''NFL''" by code_simp
  from a b c d 1 2 3 u show ?thesis by simp
qed

text \<open>
  Claim C10 as stated fails: the sample row has the league link, and its identifier is
  \<^verbatim>\<open>UNKNOWN\<close>, the upper-cased text after \<^verbatim>\<open>f=\<close>.
\<close>

theorem unknown_with_link_present:
  "sport_elem row_unknown_league = Some ''https://veri.bet/betting-trends?f=unknown''
   \<and> py_in ''f='' ''https://veri.bet/betting-trends?f=unknown''
   \<and> league_of row_unknown_league = ''UNKNOWN''"
  by code_simp


section \<open>Properties of the date resolver\<close>

text \<open>
  Claim C4 says that no exception leaves the date resolver or the cycle, also for a value
  of the date control that fails to parse. The handler of \<^verbatim>\<open>get_event_date\<close> and the outer
  handler of \<^verbatim>\<open>parse_game_data\<close> catch \<^verbatim>\<open>TimeoutException\<close> only. On the sample page the date
  control holds \<^verbatim>\<open>2024-01-05\<close>: \<^verbatim>\<open>strptime\<close> raises \<^verbatim>\<open>ValueError\<close>, which leaves
  \<^verbatim>\<open>get_event_date\<close>, \<^verbatim>\<open>parse_game_data\<close> and the main loop; nothing is cached or logged.
\<close>

theorem unparsable_date_propagates:
  "get_event_date page_iso_date init_state = (Inl ValueError, init_state)
   \<and> parse_game_data page_iso_date init_state = (Inl ValueError, init_state)
   \<and> main_loop [page_iso_date, page_first_half_only] init_state = (Inl ValueError, init_state)"
  by code_simp


subsection \<open>The cached event date\<close>

lemma strftime_iso_nonempty: "strftime_iso t \<noteq> []"
  by (simp add: strftime_iso_def fmt4_def)

lemma get_event_date_cached:
  assumes "cached_event_date st = Some d" "d \<noteq> []"
  shows "get_event_date pg st = (Inr d, st)"
  using assms by (simp add: get_event_date_def)

lemma use_utcnow_caches:
  assumes "use_utcnow m pg st = (Inr d, st')"
  shows "cached_event_date st' = Some d \<and> d \<noteq> []"
  using assms strftime_iso_nonempty[of "utcnow pg"]
  by (auto simp: use_utcnow_def log_warning_def)

lemma event_date_try_caches:
  assumes "event_date_try pg st = (Inr d, st')"
  shows "cached_event_date st' = Some d \<and> d \<noteq> []"
proof (cases "datepicker pg")
  case None
  with assms show ?thesis by (simp add: event_date_try_def)
next
  case (Some raw_date)
  show ?thesis
  proof (cases "truthy raw_date")
    case False
    with assms Some have "use_utcnow DateFieldEmpty pg st = (Inr d, st')"
      by (auto simp: event_date_try_def truthy_def split: option.splits if_splits)
    then show ?thesis by (rule use_utcnow_caches)
  next
    case True
    then obtain v where v: "raw_date = Some v" "v \<noteq> []"
      by (auto simp: truthy_def split: option.splits)
    show ?thesis
    proof (cases "strptime (v @ '' '' @ strftime_hms (now_local pg))")
      case (Inl e)
      with assms Some v show ?thesis
        by (simp add: event_date_try_def)
    next
      case (Inr parsed_date)
      with assms Some v strftime_iso_nonempty[of parsed_date] show ?thesis
        by (auto simp: event_date_try_def)
    qed
  qed
qed

lemma event_date_resolve_caches:
  assumes "event_date_resolve pg st = (Inr d, st')"
  shows "cached_event_date st' = Some d \<and> d \<noteq> []"
proof (cases "event_date_try pg st")
  case (Pair res st1)
  show ?thesis
  proof (cases res)
    case (Inl e)
    show ?thesis
    proof (cases "e = TimeoutException")
      case True
      with assms Pair Inl have "use_utcnow DateRetrievalFailed pg st1 = (Inr d, st')"
        by (simp add: event_date_resolve_def)
      then show ?thesis by (rule use_utcnow_caches)
    next
      case False
      with assms Pair Inl show ?thesis
        by (simp add: event_date_resolve_def)
    qed
  next
    case (Inr d1)
    with assms Pair have "event_date_try pg st = (Inr d, st')"
      by (simp add: event_date_resolve_def)
    then show ?thesis by (rule event_date_try_caches)
  qed
qed

lemma get_event_date_first:
  assumes "\<not> truthy (cached_event_date st)" "get_event_date pg st = (Inr d, st')"
  shows "cached_event_date st' = Some d \<and> d \<noteq> []"
proof -
  from assms have "event_date_resolve pg st = (Inr d, st')"
    by (auto simp: get_event_date_def truthy_def split: option.splits if_splits)
  then show ?thesis by (rule event_date_resolve_caches)
qed

lemma line_item_dated:
  assumes "line_item lg d t1 t2 per lt prices i sd tm spreads = Inr it"
  shows "event_date_utc it = d"
  using assms
  by (auto simp: line_item_def and_then_def split: sum.splits)

lemma draw_item_dated:
  assumes "draw_item lg d t1 t2 per r = Inr it"
  shows "event_date_utc it = d"
  using assms
  by (auto simp: draw_item_def and_then_def split: sum.splits)

lemma pass_stmt_dated: "all_dated d pass_stmt"
  by (simp add: all_dated_def pass_stmt_appends(2))

lemma items_append_dated:
  assumes "\<And>it. x = Inr it \<Longrightarrow> event_date_utc it = d"
  shows "all_dated d (items_append x)"
  using assms
  by (cases x) (simp_all add: all_dated_def items_append_Inr(2) items_append_Inl(2))

lemma run_seq_dated:
  assumes "appends f" "appends g" "all_dated d f" "all_dated d g"
  shows "all_dated d (run_seq f g)"
proof -
  have "set (fst (block_out (run_seq f g))) \<subseteq> set (fst (block_out f)) \<union> set (fst (block_out g))"
    using run_seq_out[OF assms(1,2)] by (auto split: option.splits)
  with assms(3,4) show ?thesis unfolding all_dated_def by blast
qed

lemma line_append_dated:
  "all_dated d (items_append (line_item lg d t1 t2 per lt prices i sd tm spreads))"
  by (rule items_append_dated) (rule line_item_dated)

lemma moneyline_block_dated: "all_dated d (moneyline_block lg d t1 t2 per r)"
proof (cases "2 \<le> length (moneyline_prices r)")
  case True
  then show ?thesis
    unfolding moneyline_block_def
    by (simp only: if_True)
       (intro run_seq_dated items_append_appends line_append_dated)
next
  case False
  then show ?thesis
    unfolding moneyline_block_def
    by (simp only: if_False) (rule pass_stmt_dated)
qed

lemma spread_block_dated: "all_dated d (spread_block lg d t1 t2 per r)"
proof (cases "2 \<le> length (spread_prices r)")
  case True
  then show ?thesis
    unfolding spread_block_def
    by (simp only: if_True)
       (intro run_seq_dated items_append_appends line_append_dated)
next
  case False
  then show ?thesis
    unfolding spread_block_def
    by (simp only: if_False) (rule pass_stmt_dated)
qed

lemma over_under_block_dated: "all_dated d (over_under_block lg d t1 t2 per r)"
proof (cases "2 \<le> length (total_prices r)")
  case True
  then show ?thesis
    unfolding over_under_block_def
    by (simp only: if_True)
       (intro run_seq_dated items_append_appends line_append_dated)
next
  case False
  then show ?thesis
    unfolding over_under_block_def
    by (simp only: if_False) (rule pass_stmt_dated)
qed

lemma draw_block_dated: "all_dated d (draw_block lg d t1 t2 per r)"
  by (simp add: all_dated_def draw_block_out)

lemma market_blocks_dated: "all_dated d (market_blocks lg d t1 t2 per r)"
  unfolding market_blocks_def
  by (intro run_seq_dated run_seq_appends moneyline_block_appends draw_block_appends
        spread_block_appends over_under_block_appends moneyline_block_dated draw_block_dated
        spread_block_dated over_under_block_dated)

lemma emitted_dated:
  assumes "it \<in> set (emitted pg d r)"
  shows "event_date_utc it = d"
proof (cases "precondition r")
  case True
  with assms market_blocks_dated[of d "league_of r" "team_names r ! 0" "team_names r ! 1" "period_of pg r" r]
  show ?thesis
    unfolding emitted_run(1)[OF True] all_dated_def by blast
next
  case False
  with assms show ?thesis by (simp add: emitted_skip)
qed

lemma parse_game_data_cached:
  assumes "cached_event_date st = Some d" "d \<noteq> []"
  shows "\<exists>its st'. parse_game_data pg st = (Inr its, st') \<and> cached_event_date st' = Some d
           \<and> (\<forall>it \<in> set its. event_date_utc it = d)"
proof -
  have c: "cached_event_date (st\<lparr>items := []\<rparr>) = Some d" using assms(1) by simp
  have g: "get_event_date pg (st\<lparr>items := []\<rparr>) = (Inr d, st\<lparr>items := []\<rparr>)"
    using c assms(2) by (rule get_event_date_cached)
  show ?thesis
  proof (cases "game_rows pg")
    case None
    then show ?thesis
      using assms(1) by (simp add: parse_game_data_def g log_warning_def)
  next
    case (Some rows)
    have "items (parse_rows pg d rows (st\<lparr>items := []\<rparr>)) = concat (map (emitted pg d) rows)"
      by (simp add: parse_rows_items)
    then have "\<forall>it \<in> set (items (parse_rows pg d rows (st\<lparr>items := []\<rparr>))). event_date_utc it = d"
      using emitted_dated by auto
    moreover have "cached_event_date (parse_rows pg d rows (st\<lparr>items := []\<rparr>)) = Some d"
      using c by (simp add: parse_rows_cached)
    ultimately show ?thesis
      using Some by (simp add: parse_game_data_def g Let_def)
  qed
qed

lemma main_loop_cached:
  assumes "cached_event_date st = Some d" "d \<noteq> []"
  shows "\<exists>outs st'. main_loop pgs st = (Inr outs, st') \<and> cached_event_date st' = Some d
           \<and> (\<forall>its \<in> set outs. \<forall>it \<in> set its. event_date_utc it = d)"
  using assms(1)
proof (induction pgs arbitrary: st)
  case Nil
  then show ?case by simp
next
  case (Cons pg pgs)
  from parse_game_data_cached[OF Cons.prems assms(2), of pg] obtain its st1 where
    1: "parse_game_data pg st = (Inr its, st1)" "cached_event_date st1 = Some d"
       "\<forall>it \<in> set its. event_date_utc it = d"
    by blast
  from Cons.IH[OF 1(2)] obtain outs st2 where
    2: "main_loop pgs st1 = (Inr outs, st2)" "cached_event_date st2 = Some d"
       "\<forall>its \<in> set outs. \<forall>it \<in> set its. event_date_utc it = d"
    by blast
  have "main_loop (pg # pgs) st = (Inr (its # outs), st2)"
    by (simp add: 1(1) 2(1))
  with 1(3) 2(2,3) show ?case by simp
qed

text \<open>
  Claim C5, as amended. The event date is memoized on the scraper object: a call that
  finds the cache empty and returns has computed the value and cached it, and from then
  on every call returns the cached value, on whatever page, in the same cycle and in all
  later ones. The cache is never invalidated: through any run of navigations the main
  loop keeps it, and every record of every later cycle carries the cached date.
\<close>

theorem event_date_cached_for_good:
  "(\<not> truthy (cached_event_date st) \<and> get_event_date pg st = (Inr d, st')
      \<longrightarrow> cached_event_date st' = Some d \<and> d \<noteq> [])
   \<and> (cached_event_date st = Some d \<and> d \<noteq> [] \<longrightarrow>
        get_event_date pg st = (Inr d, st)
        \<and> (\<exists>outs st''. main_loop pgs st = (Inr outs, st'') \<and> cached_event_date st'' = Some d
              \<and> (\<forall>its \<in> set outs. \<forall>it \<in> set its. event_date_utc it = d)))"
proof (intro conjI impI)
  assume "\<not> truthy (cached_event_date st) \<and> get_event_date pg st = (Inr d, st')"
  then show "cached_event_date st' = Some d" "d \<noteq> []"
    using get_event_date_first by blast+
next
  assume a: "cached_event_date st = Some d \<and> d \<noteq> []"
  then show "get_event_date pg st = (Inr d, st)"
    by (simp add: get_event_date_cached)
  from a show "\<exists>outs st''. main_loop pgs st = (Inr outs, st'') \<and> cached_event_date st'' = Some d
              \<and> (\<forall>its \<in> set outs. \<forall>it \<in> set its. event_date_utc it = d)"
    using main_loop_cached by blast
qed

theorem event_date_cached_for_good_witness:
  "\<not> truthy (cached_event_date init_state)
   \<and> get_event_date page_first_half_only init_state
       = (Inr sample_date, init_state\<lparr>cached_event_date := Some sample_date\<rparr>)
   \<and> sample_date \<noteq> []
   \<and> get_event_date page_next_day (init_state\<lparr>cached_event_date := Some sample_date\<rparr>)
       = (Inr sample_date, init_state\<lparr>cached_event_date := Some sample_date\<rparr>)
   \<and> (case main_loop [page_next_day] (init_state\<lparr>cached_event_date := Some sample_date\<rparr>) of
         (out, st) \<Rightarrow> (map_sum id (map (map event_date_utc)) out, cached_event_date st))
       = (Inr [[sample_date, sample_date, sample_date, sample_date]], Some sample_date)"
proof -
  have a: "\<not> truthy (cached_event_date init_state)"
    by (simp add: init_state_def truthy_def)
  have b: "get_event_date page_first_half_only init_state
       = (Inr sample_date, init_state\<lparr>cached_event_date := Some sample_date\<rparr>)"
    by code_simp
  have c: "cached_event_date (init_state\<lparr>cached_event_date := Some sample_date\<rparr>) = Some sample_date"
    by simp
  from event_date_cached_for_good[where st = init_state and pg = page_first_half_only
      and d = sample_date and st' = "init_state\<lparr>cached_event_date := Some sample_date\<rparr>"] a b
  have ne: "sample_date \<noteq> []" by blast
  from event_date_cached_for_good[where st = "init_state\<lparr>cached_event_date := Some sample_date\<rparr>"
      and d = sample_date and pg = page_next_day] c ne
  have g: "get_event_date page_next_day (init_state\<lparr>cached_event_date := Some sample_date\<rparr>)
       = (Inr sample_date, init_state\<lparr>cached_event_date := Some sample_date\<rparr>)"
    by blast
  have m: "(case main_loop [page_next_day] (init_state\<lparr>cached_event_date := Some sample_date\<rparr>) of
         (out, st) \<Rightarrow> (map_sum id (map (map event_date_utc)) out, cached_event_date st))
       = (Inr [[sample_date, sample_date, sample_date, sample_date]], Some sample_date)"
    by code_simp
  from a b ne g m show ?thesis by (intro conjI)
qed

text \<open>
  Claim C5 as stated fails: after a cycle on a page dated 01-05-2024 the browser
  navigates to a page dated 01-06-2024, for which a fresh resolver returns
  \<^verbatim>\<open>2024-01-06T...\<close>; the records of the second cycle carry the first page's date, and the
  cache still holds it.
\<close>

theorem cache_survives_navigation:
  "fst (get_event_date page_next_day init_state) = Inr ''2024-01-06T07:05:59+00:00''
   \<and> (case main_loop [page_first_half_only, page_next_day] init_state of
         (out, st) \<Rightarrow> (map_sum id (map (map event_date_utc)) out, cached_event_date st))
       = (Inr [[''2024-01-05T07:05:59+00:00'', ''2024-01-05T07:05:59+00:00'',
                ''2024-01-05T07:05:59+00:00'', ''2024-01-05T07:05:59+00:00''],
               [''2024-01-05T07:05:59+00:00'', ''2024-01-05T07:05:59+00:00'',
                ''2024-01-05T07:05:59+00:00'', ''2024-01-05T07:05:59+00:00'']],
          Some ''2024-01-05T07:05:59+00:00'')"
  by code_simp

end
